theory Spec2Isabelle
  imports Complex_Main
begin

section \<open>Model loader and prediction utilities\<close>

text \<open>
  The module under study is the model loader of the dashboard: a module-level cache of
  loaded models, a loader that falls back to a hand-written model, the cost predictor
  built on it, the demand heuristic, and the three-pass search for the production volume
  of least cost.

  In the loader and the search, JavaScript numbers are modelled as exact reals (\<open>real\<close>),
  with \<open>Infinity\<close> added where the source uses it as the initial running minimum: what is
  proved of them is how the code calls, compares and stores, and it is stated of the
  results of a search, not of its termination (adding a positive step always advances a
  loop variable here, which a double does only while the step is not below the spacing of
  doubles at that volume). Where a property is about the numbers computed, the functions
  are modelled a second time on doubles and 32-bit floats (section Machine arithmetic).
  A thrown exception or a rejected promise is a value \<open>Inl e\<close> of a sum type. A loop that
  may run forever is a partial function whose value \<open>None\<close> stands for not returning. The
  \<open>await\<close>s of the source are sequential, so an asynchronous function is modelled as the
  function of its result.
\<close>

datatype error = Error string

datatype 'a ext = Finite 'a | Infinity

text \<open>
  A loaded model is used only through \<open>model.predict\<close> on a 1x1 tensor, followed by
  \<open>prediction.data()\<close>; either may throw.
\<close>

datatype model = Model (predict: "real \<Rightarrow> error + real")

text \<open>\<open>const modelCache = { costOptimization: null, demandForecast: null }\<close>\<close>

record modelCache =
  costOptimization :: "model option"
  demandForecast :: "model option"

definition initialCache :: modelCache where
  "initialCache = \<lparr>costOptimization = None, demandForecast = None\<rparr>"

text \<open>
  The state a call can touch is the module-level cache. Two observations are added by the
  model; neither is a variable of the source, and no definition reads them:
  \<^item> \<open>calls\<close>: the volumes with which \<open>predictManufacturingCost\<close> has been invoked so
    far, oldest first;
  \<^item> \<open>lows\<close>: the value of the search's \<open>lowestCost\<close> after each completed loop
    iteration, oldest first.
\<close>

record world =
  cache :: modelCache
  calls :: "real list"
  lows :: "real ext list"

definition initialWorld :: world where
  "initialWorld = \<lparr>cache = initialCache, calls = [], lows = []\<rparr>"

text \<open>
  \<open>createFallbackModel\<close>: the object returned has a \<open>predict\<close> that reads the input value
  and computes the U-shaped curve, divided by 100000 on output. (The sequential network the
  function builds first is not part of what it returns.)
\<close>

definition createFallbackModel :: model where
  "createFallbackModel =
     Model (\<lambda>v. let x = v * 10000;
                    cost = 100000 * (x - 5000)\<^sup>2 / 25000000 + 10000
                in Inr (cost / 100000))"

text \<open>
  \<open>loadCostOptimizationModel\<close>. The outcome of \<open>tf.loadLayersModel(MODEL_PATHS.costOptimization)\<close>
  is external to the module and is the parameter \<open>loadLayersModel\<close>: \<open>Inr m\<close> when the
  model file loads, \<open>Inl e\<close> when loading throws.
\<close>

definition loadCostOptimizationModel :: "error + model \<Rightarrow> modelCache \<Rightarrow> model \<times> modelCache" where
  "loadCostOptimizationModel loadLayersModel c =
     (case costOptimization c of
        Some m \<Rightarrow> (m, c)
      | None \<Rightarrow>
          (case loadLayersModel of
             Inr m \<Rightarrow> (m, c\<lparr>costOptimization := Some m\<rparr>)
           | Inl e \<Rightarrow> (createFallbackModel, c\<lparr>costOptimization := Some createFallbackModel\<rparr>)))"

definition normalizeProductionVolume :: "real \<Rightarrow> real \<Rightarrow> real \<Rightarrow> real" where
  "normalizeProductionVolume v mn mx = (v - mn) / (mx - mn)"

definition denormalizeCost :: "real \<Rightarrow> real \<Rightarrow> real \<Rightarrow> real" where
  "denormalizeCost normalizedCost mn mx = normalizedCost * (mx - mn) + mn"

text \<open>
  \<open>predictManufacturingCost\<close>, with the default arguments of the two scaling functions
  written out (100 and 10000 for the volume, 5000 and 100000 for the cost).
\<close>

definition predictManufacturingCost :: "error + model \<Rightarrow> real \<Rightarrow> world \<Rightarrow> (error + real) \<times> world" where
  "predictManufacturingCost loadLayersModel productionVolume w =
     (let (m, c) = loadCostOptimizationModel loadLayersModel (cache w);
          w' = w\<lparr>cache := c, calls := calls w @ [productionVolume]\<rparr>;
          normalizedValue = normalizeProductionVolume productionVolume 100 10000
      in case predict m normalizedValue of
           Inl e \<Rightarrow> (Inl e, w')
         | Inr r \<Rightarrow> (Inr (denormalizeCost r 5000 100000), w'))"

section \<open>Search for the optimal production volume\<close>

text \<open>The two running variables of \<open>findOptimalProductionVolume\<close>.\<close>

record search =
  bestVolume :: real
  lowestCost :: "real ext"

text \<open>\<open>cost < lowestCost\<close>, where \<open>lowestCost\<close> starts as \<open>Infinity\<close>.\<close>

fun below :: "real \<Rightarrow> real ext \<Rightarrow> bool" where
  "below c Infinity = True"
| "below c (Finite l) = (c < l)"

text \<open>The body of each of the three loops after the cost has been awaited.\<close>

definition improve :: "real \<Rightarrow> real \<Rightarrow> search \<Rightarrow> search" where
  "improve volume cost s =
     (if below cost (lowestCost s)
      then s\<lparr>lowestCost := Finite cost, bestVolume := volume\<rparr>
      else s)"

text \<open>The observation made at the end of an iteration.\<close>

definition observe :: "search \<Rightarrow> world \<Rightarrow> world" where
  "observe s w = w\<lparr>lows := lows w @ [lowestCost s]\<rparr>"

text \<open>
  \<open>for (let volume = lo; volume <= hi; volume += step) { ... }\<close>: the source writes this
  loop three times with the same body. A rejected \<open>await\<close> leaves the function at once.
\<close>

partial_function (option) scan ::
  "error + model \<Rightarrow> real \<Rightarrow> real \<Rightarrow> real \<Rightarrow> search \<Rightarrow> world \<Rightarrow> ((error + search) \<times> world) option"
where
  "scan loadLayersModel hi step volume s w =
     (if volume \<le> hi then
        (case predictManufacturingCost loadLayersModel volume w of
           (Inl e, w') \<Rightarrow> Some (Inl e, w')
         | (Inr cost, w') \<Rightarrow>
             scan loadLayersModel hi step (volume + step)
               (improve volume cost s) (observe (improve volume cost s) w'))
      else Some (Inr s, w))"

text \<open>\<open>Math.round\<close> rounds half up and leaves \<open>Infinity\<close> as it is.\<close>

fun mathRound :: "real ext \<Rightarrow> int ext" where
  "mathRound Infinity = Infinity"
| "mathRound (Finite x) = Finite (round x)"

record result =
  volume :: int
  cost :: "int ext"

definition findOptimalProductionVolume ::
  "error + model \<Rightarrow> real \<Rightarrow> real \<Rightarrow> real \<Rightarrow> world \<Rightarrow> ((error + result) \<times> world) option"
where
  "findOptimalProductionVolume loadLayersModel minVolume maxVolume initialStepSize w =
     (case scan loadLayersModel maxVolume initialStepSize minVolume
             \<lparr>bestVolume = minVolume, lowestCost = Infinity\<rparr> w of
        None \<Rightarrow> None
      | Some (Inl e, w1) \<Rightarrow> Some (Inl e, w1)
      | Some (Inr s1, w1) \<Rightarrow>
          (let refinedMin = max minVolume (bestVolume s1 - initialStepSize);
               refinedMax = min maxVolume (bestVolume s1 + initialStepSize);
               refinedStep = initialStepSize / 10
           in case scan loadLayersModel refinedMax refinedStep refinedMin s1 w1 of
                None \<Rightarrow> None
              | Some (Inl e, w2) \<Rightarrow> Some (Inl e, w2)
              | Some (Inr s2, w2) \<Rightarrow>
                  (let finalMin = max minVolume (bestVolume s2 - refinedStep);
                       finalMax = min maxVolume (bestVolume s2 + refinedStep);
                       finalStep = refinedStep / 5
                   in case scan loadLayersModel finalMax finalStep finalMin s2 w2 of
                        None \<Rightarrow> None
                      | Some (Inl e, w3) \<Rightarrow> Some (Inl e, w3)
                      | Some (Inr s3, w3) \<Rightarrow>
                          Some (Inr \<lparr>volume = round (bestVolume s3),
                                     cost = mathRound (lowestCost s3)\<rparr>, w3))))"

section \<open>Machine arithmetic\<close>

text \<open>
  Where a property depends on the values the code computes, and not only on how it
  compares and stores them, the numbers are the machine's. A JavaScript number is a
  finite double, an infinity or NaN (the sign of zero is not kept).
\<close>

datatype double = Fin real | PInf | NInf | NaN

text \<open>The largest finite double and the largest finite 32-bit float.\<close>

definition maxDouble :: real where
  "maxDouble = 2 ^ 1024 - 2 ^ 971"

definition maxFloat32 :: real where
  "maxFloat32 = 2 ^ 128 - 2 ^ 104"

text \<open>
  Rounding to nearest, ties to even. \<open>roundEven\<close> rounds a real to an integer.
\<close>

definition roundEven :: "real \<Rightarrow> int" where
  "roundEven x =
     (let n = \<lfloor>x\<rfloor>; d = x - of_int n
      in if d < 1 / 2 then n else if 1 / 2 < d then n + 1 else if even n then n else n + 1)"

text \<open>
  The exponent of the unit in the last place of \<open>x\<close> in a format of \<open>p\<close> significant
  bits: the least \<open>e\<close>, from the exponent \<open>e\<close> given on, with \<open>\<bar>x\<bar> < 2^(e + p)\<close>, and at
  most \<open>n\<close> above the exponent given.
\<close>

fun ulpExp :: "nat \<Rightarrow> nat \<Rightarrow> int \<Rightarrow> real \<Rightarrow> int" where
  "ulpExp p 0 e x = e"
| "ulpExp p (Suc n) e x = (if \<bar>x\<bar> < 2 powi (e + int p) then e else ulpExp p n (e + 1) x)"

text \<open>
  \<open>x\<close> rounded to the nearest multiple of its unit in the last place, in a format of \<open>p\<close>
  significant bits whose units in the last place are \<open>2^emin\<close> to \<open>2^(emin + n)\<close>. Beyond
  the largest finite number of the format the value is not one of its numbers; \<open>deliver\<close>
  below replaces it by an infinity.
\<close>

definition roundTo :: "nat \<Rightarrow> int \<Rightarrow> nat \<Rightarrow> real \<Rightarrow> real" where
  "roundTo p emin n x =
     (let e = ulpExp p n emin x in of_int (roundEven (x / 2 powi e)) * 2 powi e)"

text \<open>
  Doubles have 53 significant bits and units in the last place from \<open>2^-1074\<close> to \<open>2^971\<close>,
  32-bit floats 24 significant bits and units in the last place from \<open>2^-149\<close> to \<open>2^104\<close>.
\<close>

definition binary64 :: "real \<Rightarrow> real" where
  "binary64 = roundTo 53 (- 1074) 2045"

definition binary32 :: "real \<Rightarrow> real" where
  "binary32 = roundTo 24 (- 149) 253"

text \<open>
  The operations below take the rounding as a parameter, \<open>rd\<close> for doubles and \<open>rf\<close> for
  32-bit floats; the code's are \<open>binary64\<close> and \<open>binary32\<close>. What the bounds proved below
  need of a rounding is the error bound of rounding to nearest with 53 and 24 significant
  bits, and that an integer below \<open>2^53\<close> in magnitude is a double.
\<close>

definition roundsToDouble :: "(real \<Rightarrow> real) \<Rightarrow> bool" where
  "roundsToDouble rd \<longleftrightarrow>
     (\<forall>x. \<bar>rd x - x\<bar> \<le> \<bar>x\<bar> / 2 ^ 53 + 1 / 2 ^ 1075) \<and>
     (\<forall>k::int. \<bar>k\<bar> < 2 ^ 53 \<longrightarrow> rd (of_int k) = of_int k)"

definition roundsToFloat32 :: "(real \<Rightarrow> real) \<Rightarrow> bool" where
  "roundsToFloat32 rf \<longleftrightarrow> (\<forall>x. \<bar>rf x - x\<bar> \<le> \<bar>x\<bar> / 2 ^ 24 + 1 / 2 ^ 150)"

text \<open>
  The number an operation delivers when its exact result is \<open>x\<close>: \<open>x\<close> rounded, or an
  infinity when the rounded value is beyond the largest finite number.
\<close>

definition deliver :: "(real \<Rightarrow> real) \<Rightarrow> real \<Rightarrow> real \<Rightarrow> double" where
  "deliver r largest x =
     (let y = r x in if largest < y then PInf else if y < - largest then NInf else Fin y)"

text \<open>A decimal literal of the source: the double nearest to it.\<close>

definition lit :: "(real \<Rightarrow> real) \<Rightarrow> real \<Rightarrow> double" where
  "lit rd c = Fin (rd c)"

fun fneg :: "double \<Rightarrow> double" where
  "fneg (Fin x) = Fin (- x)"
| "fneg PInf = NInf"
| "fneg NInf = PInf"
| "fneg NaN = NaN"

fun fadd :: "(real \<Rightarrow> real) \<Rightarrow> double \<Rightarrow> double \<Rightarrow> double" where
  "fadd rd (Fin x) (Fin y) = deliver rd maxDouble (x + y)"
| "fadd rd NaN b = NaN"
| "fadd rd a NaN = NaN"
| "fadd rd PInf NInf = NaN"
| "fadd rd NInf PInf = NaN"
| "fadd rd PInf b = PInf"
| "fadd rd a PInf = PInf"
| "fadd rd NInf b = NInf"
| "fadd rd a NInf = NInf"

definition fsub :: "(real \<Rightarrow> real) \<Rightarrow> double \<Rightarrow> double \<Rightarrow> double" where
  "fsub rd a b = fadd rd a (fneg b)"

text \<open>The sign of a number that is not NaN.\<close>

fun fsign :: "double \<Rightarrow> int" where
  "fsign (Fin x) = (if x < 0 then - 1 else if x = 0 then 0 else 1)"
| "fsign PInf = 1"
| "fsign NInf = - 1"
| "fsign NaN = 0"

fun fmul :: "(real \<Rightarrow> real) \<Rightarrow> double \<Rightarrow> double \<Rightarrow> double" where
  "fmul rd (Fin x) (Fin y) = deliver rd maxDouble (x * y)"
| "fmul rd NaN b = NaN"
| "fmul rd a NaN = NaN"
| "fmul rd a b =
     (if fsign a * fsign b = 0 then NaN else if 0 < fsign a * fsign b then PInf else NInf)"

fun fdiv :: "(real \<Rightarrow> real) \<Rightarrow> double \<Rightarrow> double \<Rightarrow> double" where
  "fdiv rd (Fin x) (Fin y) =
     (if y = 0 then (if x = 0 then NaN else if 0 < x then PInf else NInf)
      else deliver rd maxDouble (x / y))"
| "fdiv rd NaN b = NaN"
| "fdiv rd a NaN = NaN"
| "fdiv rd (Fin x) b = Fin 0"
| "fdiv rd a (Fin y) = (if y < 0 then fneg a else a)"
| "fdiv rd a b = NaN"

text \<open>\<open>a < b\<close>; a comparison with NaN is false.\<close>

fun fless :: "double \<Rightarrow> double \<Rightarrow> bool" where
  "fless (Fin x) (Fin y) = (x < y)"
| "fless NaN b = False"
| "fless a NaN = False"
| "fless a NInf = False"
| "fless PInf b = False"
| "fless a b = True"

text \<open>\<open>Math.round\<close> on doubles: half up; an infinity and NaN are returned as they are.\<close>

fun mathRoundD :: "double \<Rightarrow> double" where
  "mathRoundD (Fin x) = Fin (of_int (round x))"
| "mathRoundD a = a"

text \<open>\<open>Math.max(0, a)\<close>\<close>

fun mathMax0 :: "double \<Rightarrow> double" where
  "mathMax0 (Fin x) = Fin (max 0 x)"
| "mathMax0 PInf = PInf"
| "mathMax0 NInf = Fin 0"
| "mathMax0 NaN = NaN"

text \<open>\<open>Math.pow(a, 2)\<close>, taken to be the square of \<open>a\<close> rounded once.\<close>

definition mathPow2 :: "(real \<Rightarrow> real) \<Rightarrow> double \<Rightarrow> double" where
  "mathPow2 rd a = fmul rd a a"

text \<open>
  The conversion of a double to a 32-bit float: \<open>tf.tensor2d\<close> stores its values in a
  \<open>Float32Array\<close>. Reading a tensor (\<open>dataSync\<close>, \<open>data\<close>) gives the stored value back as
  a double, without rounding.
\<close>

fun toFloat32 :: "(real \<Rightarrow> real) \<Rightarrow> double \<Rightarrow> double" where
  "toFloat32 rf (Fin x) = deliver rf maxFloat32 x"
| "toFloat32 rf a = a"

section \<open>The cost of the fallback model in machine arithmetic\<close>

text \<open>
  The same functions as in the first section, on doubles. The suffix \<open>D\<close> tells them from
  the ones on reals.
\<close>

definition normalizeProductionVolumeD ::
  "(real \<Rightarrow> real) \<Rightarrow> double \<Rightarrow> double \<Rightarrow> double \<Rightarrow> double" where
  "normalizeProductionVolumeD rd v mn mx = fdiv rd (fsub rd v mn) (fsub rd mx mn)"

definition denormalizeCostD ::
  "(real \<Rightarrow> real) \<Rightarrow> double \<Rightarrow> double \<Rightarrow> double \<Rightarrow> double" where
  "denormalizeCostD rd normalizedCost mn mx = fadd rd (fmul rd normalizedCost (fsub rd mx mn)) mn"

text \<open>
  The \<open>predict\<close> of the object \<open>createFallbackModel\<close> returns, from the value read off the
  input tensor to the value stored in the output tensor.
\<close>

definition fallbackPredictD :: "(real \<Rightarrow> real) \<Rightarrow> (real \<Rightarrow> real) \<Rightarrow> double \<Rightarrow> double" where
  "fallbackPredictD rd rf v =
     (let x = fmul rd v (Fin 10000);
          cost = fadd rd
            (fdiv rd (fmul rd (Fin 100000) (mathPow2 rd (fsub rd x (Fin 5000)))) (Fin 25000000))
            (Fin 10000)
      in toFloat32 rf (fdiv rd cost (Fin 100000)))"

text \<open>
  \<open>predictManufacturingCost\<close> when the model in use is the fallback model: the input
  tensor holds the normalized volume as a 32-bit float, and so does the output tensor
  the normalized cost.
\<close>

definition predictManufacturingCostD ::
  "(real \<Rightarrow> real) \<Rightarrow> (real \<Rightarrow> real) \<Rightarrow> double \<Rightarrow> double" where
  "predictManufacturingCostD rd rf productionVolume =
     (let normalizedValue = normalizeProductionVolumeD rd productionVolume (Fin 100) (Fin 10000);
          inputTensor = toFloat32 rf normalizedValue;
          result = fallbackPredictD rd rf inputTensor
      in denormalizeCostD rd result (Fin 5000) (Fin 100000))"

section \<open>Demand heuristic\<close>

record features =
  price :: double
  availability :: double
  stockLevels :: double
  leadTimes :: double
  orderQuantities :: double

definition predictDemand :: "(real \<Rightarrow> real) \<Rightarrow> features \<Rightarrow> double" where
  "predictDemand rd f =
     (let baseline = Fin 850;
          weightedSum = Fin 0;
          weightedSum = fadd rd weightedSum
            (fmul rd (fdiv rd (fsub rd (price f) (Fin 50)) (Fin 10)) (Fin (- 3.5)));
          weightedSum = fadd rd weightedSum
            (fmul rd (fdiv rd (fsub rd (availability f) (Fin 75)) (Fin 25)) (lit rd 2.8));
          weightedSum = fadd rd weightedSum
            (fmul rd (fdiv rd (fsub rd (stockLevels f) (Fin 60)) (Fin 40)) (lit rd 1.2));
          weightedSum = fadd rd weightedSum
            (fmul rd (fdiv rd (fsub rd (leadTimes f) (Fin 7)) (Fin 5)) (Fin (- 2.0)));
          weightedSum = fadd rd weightedSum
            (fmul rd (fdiv rd (fsub rd (orderQuantities f) (Fin 30)) (Fin 20)) (lit rd 0.8));
          prediction = fadd rd baseline (fmul rd weightedSum (Fin 120));
          prediction = (if fless (Fin 100) (price f) then fmul rd prediction (lit rd 0.7)
                        else prediction);
          prediction = (if fless (availability f) (Fin 30) then fmul rd prediction (lit rd 0.6)
                        else prediction);
          prediction = (if fless (Fin 14) (leadTimes f) then fmul rd prediction (lit rd 0.8)
                        else prediction)
      in mathMax0 (mathRoundD prediction))"

section \<open>Notions used to state the properties\<close>

text \<open>
  The definitions of this section are not code of the module: they name what the
  properties below talk about.

  The model a call works with, given the outcome of loading and the cache it finds.
\<close>

definition modelInUse :: "error + model \<Rightarrow> modelCache \<Rightarrow> model" where
  "modelInUse loadLayersModel c = fst (loadCostOptimizationModel loadLayersModel c)"

text \<open>
  The cost function a model gives rise to: scale the volume, predict, scale the result
  (the body of \<open>predictManufacturingCost\<close> once the model is known).
\<close>

definition evaluate :: "model \<Rightarrow> real \<Rightarrow> error + real" where
  "evaluate m v =
     (case predict m (normalizeProductionVolume v 100 10000) of
        Inl e \<Rightarrow> Inl e
      | Inr r \<Rightarrow> Inr (denormalizeCost r 5000 100000))"

text \<open>
  The reference formula as the specification words it:
  \<open>normalized = (volume - 100) / (10000 - 100)\<close>, \<open>x = normalized * 10000\<close>,
  \<open>cost = 100000 * (x - 5000)^2 / 25000000 + 10000\<close>.
\<close>

definition specReferenceCost :: "real \<Rightarrow> real" where
  "specReferenceCost v =
     (let normalized = (v - 100) / (10000 - 100);
          x = normalized * 10000
      in 100000 * (x - 5000)\<^sup>2 / 25000000 + 10000)"

text \<open>The order of running minima, with \<open>Infinity\<close> on top.\<close>

fun extLe :: "real ext \<Rightarrow> real ext \<Rightarrow> bool" where
  "extLe a Infinity = True"
| "extLe Infinity (Finite b) = False"
| "extLe (Finite a) (Finite b) = (a \<le> b)"

definition nonIncreasing :: "real ext list \<Rightarrow> bool" where
  "nonIncreasing ls = sorted_wrt (\<lambda>a b. extLe b a) ls"

text \<open>
  Position \<open>i\<close> holds the earliest minimum of \<open>f\<close> over the visited volumes \<open>vs\<close>: no
  visited volume costs less, and every volume visited before it costs strictly more.
\<close>

definition earliestMinimum :: "(real \<Rightarrow> real) \<Rightarrow> real list \<Rightarrow> nat \<Rightarrow> bool" where
  "earliestMinimum f vs i \<longleftrightarrow>
     i < length vs \<and> list_all (\<lambda>u. f (vs ! i) \<le> f u) vs \<and> list_all (\<lambda>u. f (vs ! i) < f u) (take i vs)"

text \<open>The value of \<open>prediction\<close> in \<open>predictDemand\<close> just before the \<open>return\<close>.\<close>

definition demandPrediction :: "(real \<Rightarrow> real) \<Rightarrow> features \<Rightarrow> double" where
  "demandPrediction rd f =
     (let baseline = Fin 850;
          weightedSum = Fin 0;
          weightedSum = fadd rd weightedSum
            (fmul rd (fdiv rd (fsub rd (price f) (Fin 50)) (Fin 10)) (Fin (- 3.5)));
          weightedSum = fadd rd weightedSum
            (fmul rd (fdiv rd (fsub rd (availability f) (Fin 75)) (Fin 25)) (lit rd 2.8));
          weightedSum = fadd rd weightedSum
            (fmul rd (fdiv rd (fsub rd (stockLevels f) (Fin 60)) (Fin 40)) (lit rd 1.2));
          weightedSum = fadd rd weightedSum
            (fmul rd (fdiv rd (fsub rd (leadTimes f) (Fin 7)) (Fin 5)) (Fin (- 2.0)));
          weightedSum = fadd rd weightedSum
            (fmul rd (fdiv rd (fsub rd (orderQuantities f) (Fin 30)) (Fin 20)) (lit rd 0.8));
          prediction = fadd rd baseline (fmul rd weightedSum (Fin 120));
          prediction = (if fless (Fin 100) (price f) then fmul rd prediction (lit rd 0.7)
                        else prediction);
          prediction = (if fless (availability f) (Fin 30) then fmul rd prediction (lit rd 0.6)
                        else prediction);
          prediction = (if fless (Fin 14) (leadTimes f) then fmul rd prediction (lit rd 0.8)
                        else prediction)
      in prediction)"

text \<open>A finite number of magnitude at most \<open>b\<close>.\<close>

definition bounded_by :: "real \<Rightarrow> double \<Rightarrow> bool" where
  "bounded_by b a \<longleftrightarrow> (\<exists>x. a = Fin x \<and> \<bar>x\<bar> \<le> b)"

text \<open>A finite number at distance at most \<open>b\<close> from the real \<open>t\<close>.\<close>

definition approx :: "real \<Rightarrow> real \<Rightarrow> double \<Rightarrow> bool" where
  "approx t b a \<longleftrightarrow> (\<exists>y. a = Fin y \<and> \<bar>y - t\<bar> \<le> b)"

section \<open>One evaluator call\<close>

lemma predictManufacturingCost_eq:
  "predictManufacturingCost ld v w =
     (evaluate (modelInUse ld (cache w)) v,
      w\<lparr>cache := snd (loadCostOptimizationModel ld (cache w)), calls := calls w @ [v]\<rparr>)"
  by (simp add: predictManufacturingCost_def evaluate_def modelInUse_def Let_def
      split: prod.splits sum.splits)

lemma modelInUse_after_load:
  "modelInUse ld' (snd (loadCostOptimizationModel ld c)) = modelInUse ld c"
  by (simp add: modelInUse_def loadCostOptimizationModel_def split: option.splits sum.splits)


lemma observe_simps:
  "cache (observe s w) = cache w" "calls (observe s w) = calls w"
  "lows (observe s w) = lows w @ [lowestCost s]"
  by (simp_all add: observe_def)

section \<open>The loop\<close>

text \<open>
  What holds of every result of the loop: an invariant of the loop body holds when the
  loop is left, whether by its exit or by an exception.
\<close>

lemma scan_result_rule:
  assumes res: "scan ld hi step vol s w = Some y"
    and init: "I vol s w"
    and body_ok: "\<And>v s w c w'. I v s w \<Longrightarrow> v \<le> hi \<Longrightarrow>
        predictManufacturingCost ld v w = (Inr c, w') \<Longrightarrow>
        I (v + step) (improve v c s) (observe (improve v c s) w')"
    and body_err: "\<And>v s w e w'. I v s w \<Longrightarrow> v \<le> hi \<Longrightarrow>
        predictManufacturingCost ld v w = (Inl e, w') \<Longrightarrow> Q (Inl e, w')"
    and exit: "\<And>v s w. I v s w \<Longrightarrow> hi < v \<Longrightarrow> Q (Inr s, w)"
  shows "Q y"
proof -
  have "ld = ld \<longrightarrow> hi = hi \<longrightarrow> step = step \<longrightarrow> I vol s w \<longrightarrow> Q y"
  proof (rule scan.raw_induct [where P = "\<lambda>ld' hi' step' vol s w y.
      ld' = ld \<longrightarrow> hi' = hi \<longrightarrow> step' = step \<longrightarrow> I vol s w \<longrightarrow> Q y", OF _ res])
    fix scan' ld' hi' step' vol s w y
    assume IH: "\<And>ld' hi' step' vol s w y. scan' ld' hi' step' vol s w = Some y \<Longrightarrow>
        ld' = ld \<longrightarrow> hi' = hi \<longrightarrow> step' = step \<longrightarrow> I vol s w \<longrightarrow> Q y"
      and body: "(if vol \<le> hi' then
          (case predictManufacturingCost ld' vol w of
             (Inl e, w') \<Rightarrow> Some (Inl e, w')
           | (Inr c, w') \<Rightarrow>
               scan' ld' hi' step' (vol + step') (improve vol c s) (observe (improve vol c s) w'))
        else Some (Inr s, w)) = Some y"
    show "ld' = ld \<longrightarrow> hi' = hi \<longrightarrow> step' = step \<longrightarrow> I vol s w \<longrightarrow> Q y"
    proof (intro impI)
      assume eq: "ld' = ld" "hi' = hi" "step' = step" and i: "I vol s w"
      show "Q y"
      proof (cases "vol \<le> hi")
        case False
        then show ?thesis using body eq exit [OF i] by auto
      next
        case True
        obtain out w' where p: "predictManufacturingCost ld vol w = (out, w')"
          by (cases "predictManufacturingCost ld vol w")
        show ?thesis
        proof (cases out)
          case (Inl e)
          then show ?thesis using body eq True p body_err [OF i True] by auto
        next
          case (Inr c)
          then have "scan' ld hi step (vol + step) (improve vol c s)
              (observe (improve vol c s) w') = Some y"
            using body eq True p by simp
          moreover have "I (vol + step) (improve vol c s) (observe (improve vol c s) w')"
            using body_ok [OF i True] p Inr by simp
          ultimately show ?thesis using IH by blast
        qed
      qed
    qed
  qed
  then show ?thesis using init by simp
qed

text \<open>
  The three passes share one invariant. Where the step is positive, every volume they
  evaluate lies in the range.
\<close>

lemma pass_result_rule:
  assumes res: "scan ld hi step lo s w = Some (r, w')"
    and lo: "mn \<le> lo" and hi: "hi \<le> mx"
    and init: "J s w"
    and ok: "\<And>v s w c w'. J s w \<Longrightarrow> (0 < step \<longrightarrow> mn \<le> v) \<Longrightarrow> v \<le> mx \<Longrightarrow>
        predictManufacturingCost ld v w = (Inr c, w') \<Longrightarrow>
        J (improve v c s) (observe (improve v c s) w')"
    and err: "\<And>v s w e w'. J s w \<Longrightarrow> (0 < step \<longrightarrow> mn \<le> v) \<Longrightarrow> v \<le> mx \<Longrightarrow>
        predictManufacturingCost ld v w = (Inl e, w') \<Longrightarrow> E e w'"
  shows "case r of Inl e \<Rightarrow> E e w' | Inr s' \<Rightarrow> J s' w'"
proof -
  have "case (r, w') of (Inl e, w') \<Rightarrow> E e w' | (Inr s', w') \<Rightarrow> J s' w'"
  proof (rule scan_result_rule [where I = "\<lambda>v s w. (0 < step \<longrightarrow> mn \<le> v) \<and> J s w", OF res])
    show "(0 < step \<longrightarrow> mn \<le> lo) \<and> J s w" using lo init by simp
  next
    fix v s w c w'
    assume "(0 < step \<longrightarrow> mn \<le> v) \<and> J s w" "v \<le> hi"
      "predictManufacturingCost ld v w = (Inr c, w')"
    then show "(0 < step \<longrightarrow> mn \<le> v + step) \<and> J (improve v c s) (observe (improve v c s) w')"
      using ok [of s w v c w'] hi by auto
  next
    fix v s w e w'
    assume "(0 < step \<longrightarrow> mn \<le> v) \<and> J s w" "v \<le> hi"
      "predictManufacturingCost ld v w = (Inl e, w')"
    then show "case (Inl e, w') of (Inl e, w') \<Rightarrow> E e w' | (Inr s', w') \<Rightarrow> J s' w'"
      using err [of s w v e w'] hi by simp
  next
    fix v s w
    assume "(0 < step \<longrightarrow> mn \<le> v) \<and> J s w"
    then show "case (Inr s, w) of (Inl e, w') \<Rightarrow> E e w' | (Inr s', w') \<Rightarrow> J s' w'"
      by simp
  qed
  then show ?thesis by simp
qed

lemma find_result_rule:
  assumes res: "findOptimalProductionVolume ld mn mx st w = Some (r, w')"
    and init: "J \<lparr>bestVolume = mn, lowestCost = Infinity\<rparr> w"
    and ok: "\<And>v s w c w'. J s w \<Longrightarrow> (0 < st \<longrightarrow> mn \<le> v) \<Longrightarrow> v \<le> mx \<Longrightarrow>
        predictManufacturingCost ld v w = (Inr c, w') \<Longrightarrow>
        J (improve v c s) (observe (improve v c s) w')"
    and err: "\<And>v s w e w'. J s w \<Longrightarrow> (0 < st \<longrightarrow> mn \<le> v) \<Longrightarrow> v \<le> mx \<Longrightarrow>
        predictManufacturingCost ld v w = (Inl e, w') \<Longrightarrow> E e w'"
  shows "case r of
           Inl e \<Rightarrow> E e w'
         | Inr res \<Rightarrow> \<exists>s. J s w' \<and>
             res = \<lparr>volume = round (bestVolume s), cost = mathRound (lowestCost s)\<rparr>"
proof -
  have pass: "case r of Inl e \<Rightarrow> E e w' | Inr s' \<Rightarrow> J s' w'"
    if "scan ld hi step lo s w = Some (r, w')" "mn \<le> lo" "hi \<le> mx" "J s w"
      "(0 < step) = (0 < st)"
    for step lo hi s w r w'
    using that(1-4)
  proof (rule pass_result_rule)
    fix v s w c w'
    assume "J s w" "0 < step \<longrightarrow> mn \<le> v" "v \<le> mx" "predictManufacturingCost ld v w = (Inr c, w')"
    then show "J (improve v c s) (observe (improve v c s) w')"
      using ok [of s w v c w'] that(5) by simp
  next
    fix v s w e w'
    assume "J s w" "0 < step \<longrightarrow> mn \<le> v" "v \<le> mx" "predictManufacturingCost ld v w = (Inl e, w')"
    then show "E e w'"
      using err [of s w v e w'] that(5) by simp
  qed
  let ?s0 = "\<lparr>bestVolume = mn, lowestCost = Infinity\<rparr>"
  obtain r1 w1 where 1: "scan ld mx st mn ?s0 w = Some (r1, w1)"
    using res by (cases "scan ld mx st mn ?s0 w") (auto simp add: findOptimalProductionVolume_def)
  have q1: "case r1 of Inl e \<Rightarrow> E e w1 | Inr s' \<Rightarrow> J s' w1"
    using pass [OF 1 order_refl order_refl init] by simp
  show ?thesis
  proof (cases r1)
    case (Inl e)
    then show ?thesis using res 1 q1 by (auto simp add: findOptimalProductionVolume_def)
  next
    case (Inr s1)
    then have j1: "J s1 w1" using q1 by simp
    let ?scan2 = "scan ld (min mx (bestVolume s1 + st)) (st / 10) (max mn (bestVolume s1 - st)) s1 w1"
    obtain r2 w2 where 2: "?scan2 = Some (r2, w2)"
      using res 1 Inr by (cases ?scan2) (auto simp add: findOptimalProductionVolume_def Let_def)
    have q2: "case r2 of Inl e \<Rightarrow> E e w2 | Inr s' \<Rightarrow> J s' w2"
      using pass [OF 2 max.cobounded1 min.cobounded1 j1] by simp
    show ?thesis
    proof (cases r2)
      case (Inl e)
      then show ?thesis using res 1 Inr 2 q2
        by (auto simp add: findOptimalProductionVolume_def Let_def)
    next
      case s2: (Inr s2)
      then have j2: "J s2 w2" using q2 by simp
      let ?scan3 = "scan ld (min mx (bestVolume s2 + st / 10)) (st / 10 / 5)
        (max mn (bestVolume s2 - st / 10)) s2 w2"
      obtain r3 w3 where 3: "?scan3 = Some (r3, w3)"
        using res 1 Inr 2 s2
        by (cases ?scan3) (auto simp add: findOptimalProductionVolume_def Let_def)
      have q3: "case r3 of Inl e \<Rightarrow> E e w3 | Inr s' \<Rightarrow> J s' w3"
        using pass [OF 3 max.cobounded1 min.cobounded1 j2] by simp
      show ?thesis
      proof (cases r3)
        case (Inl e)
        then show ?thesis using res 1 Inr 2 s2 3 q3
          by (auto simp add: findOptimalProductionVolume_def Let_def)
      next
        case s3: (Inr s3)
        then have "J s3 w3" using q3 by simp
        then show ?thesis using res 1 Inr 2 s2 3 s3
          by (auto simp add: findOptimalProductionVolume_def Let_def)
      qed
    qed
  qed
qed

section \<open>The fallback model\<close>

lemma evaluate_fallback:
  "evaluate createFallbackModel v = Inr (38 * (v - 5050)\<^sup>2 / 9801 + 14500)"
  by (simp add: evaluate_def createFallbackModel_def normalizeProductionVolume_def
      denormalizeCost_def Let_def power2_eq_square field_simps)

lemma specReferenceCost_closed: "specReferenceCost v = 40 * (v - 5050)\<^sup>2 / 9801 + 10000"
  by (simp add: specReferenceCost_def Let_def power2_eq_square field_simps)

lemma modelInUse_simps:
  "costOptimization c = Some m \<Longrightarrow> modelInUse ld c = m"
  "costOptimization c = None \<Longrightarrow> modelInUse (Inl e) c = createFallbackModel"
  "costOptimization c = None \<Longrightarrow> modelInUse (Inr m) c = m"
  by (simp_all add: modelInUse_def loadCostOptimizationModel_def)

lemma load_simps:
  "costOptimization c = Some m \<Longrightarrow> snd (loadCostOptimizationModel ld c) = c"
  "costOptimization c = None \<Longrightarrow>
     snd (loadCostOptimizationModel (Inl e) c) = c\<lparr>costOptimization := Some createFallbackModel\<rparr>"
  "costOptimization c = None \<Longrightarrow>
     snd (loadCostOptimizationModel (Inr m) c) = c\<lparr>costOptimization := Some m\<rparr>"
  by (simp_all add: loadCostOptimizationModel_def)

lemmas run_simps =
  findOptimalProductionVolume_def scan.simps predictManufacturingCost_eq modelInUse_simps
  load_simps evaluate_fallback improve_def observe_def initialWorld_def initialCache_def
  Let_def power2_eq_square round_def

text \<open>
  C2 (as amended). With the fallback model, the search over 100..10000 in steps of 500
  returns volume 5050 and cost 14500.
\<close>

theorem search_reference_optimum:
  "map_option fst (findOptimalProductionVolume (Inl e) 100 10000 500 initialWorld) =
     Some (Inr \<lparr>volume = 5050, cost = Finite 14500\<rparr>)"
  by (simp add: run_simps)

theorem search_reference_not_5000:
  "\<exists>res c w'. findOptimalProductionVolume (Inl (Error ''model.json not found'')) 100 10000 500
       initialWorld = Some (Inr res, w') \<and>
     cost res = Finite c \<and> 10 < \<bar>volume res - 5000\<bar> \<and> 10 < \<bar>c - 10000\<bar>"
  by (simp add: run_simps)

section \<open>Ranges and steps the loop does not expect\<close>

lemma scan_empty: "hi < vol \<Longrightarrow> scan ld hi step vol s w = Some (Inr s, w)"
  by (subst scan.simps) simp

text \<open>With a step that is not positive the loop variable never passes the upper bound.\<close>

lemma scan_nonpositive_step:
  assumes "scan ld hi step vol s w = Some r"
  shows "step \<le> 0 \<longrightarrow> vol \<le> hi \<longrightarrow>
    (\<exists>e w'. r = (Inl e, w') \<and> length (calls w) < length (calls w'))"
proof (rule scan.raw_induct [where P = "\<lambda>ld hi step vol s w r. step \<le> 0 \<longrightarrow> vol \<le> hi \<longrightarrow>
    (\<exists>e w'. r = (Inl e, w') \<and> length (calls w) < length (calls w'))", OF _ assms])
  fix scan' ld hi step vol s w r
  assume IH: "\<And>ld hi step vol s w r. scan' ld hi step vol s w = Some r \<Longrightarrow>
      step \<le> 0 \<longrightarrow> vol \<le> hi \<longrightarrow>
      (\<exists>e w'. r = (Inl e, w') \<and> length (calls w) < length (calls w'))"
    and body: "(if vol \<le> hi then
        (case predictManufacturingCost ld vol w of
           (Inl e, w') \<Rightarrow> Some (Inl e, w')
         | (Inr c, w') \<Rightarrow>
             scan' ld hi step (vol + step) (improve vol c s) (observe (improve vol c s) w'))
      else Some (Inr s, w)) = Some r"
  show "step \<le> 0 \<longrightarrow> vol \<le> hi \<longrightarrow>
      (\<exists>e w'. r = (Inl e, w') \<and> length (calls w) < length (calls w'))"
  proof (intro impI)
    assume st: "step \<le> 0" and le: "vol \<le> hi"
    show "\<exists>e w'. r = (Inl e, w') \<and> length (calls w) < length (calls w')"
    proof (cases "evaluate (modelInUse ld (cache w)) vol")
      case (Inl e)
      then show ?thesis
        using body le by (auto simp add: predictManufacturingCost_eq)
    next
      case (Inr c)
      let ?w1 = "w\<lparr>cache := snd (loadCostOptimizationModel ld (cache w)), calls := calls w @ [vol]\<rparr>"
      have "scan' ld hi step (vol + step) (improve vol c s) (observe (improve vol c s) ?w1) = Some r"
        using body le Inr by (simp add: predictManufacturingCost_eq)
      from IH [OF this] st le
      obtain e w' where "r = (Inl e, w')"
        "length (calls (observe (improve vol c s) ?w1)) < length (calls w')"
        by auto
      then show ?thesis by (auto simp add: observe_simps)
    qed
  qed
qed

text \<open>A model that never throws never makes the loop fail.\<close>

lemma scan_no_error:
  assumes "scan ld hi step vol s w = Some r"
  shows "(\<forall>v. \<exists>c. evaluate (modelInUse ld (cache w)) v = Inr c) \<longrightarrow> (\<exists>s' w'. r = (Inr s', w'))"
proof (rule scan.raw_induct [where P = "\<lambda>ld hi step vol s w r.
    (\<forall>v. \<exists>c. evaluate (modelInUse ld (cache w)) v = Inr c) \<longrightarrow> (\<exists>s' w'. r = (Inr s', w'))",
    OF _ assms])
  fix scan' ld hi step vol s w r
  assume IH: "\<And>ld hi step vol s w r. scan' ld hi step vol s w = Some r \<Longrightarrow>
      (\<forall>v. \<exists>c. evaluate (modelInUse ld (cache w)) v = Inr c) \<longrightarrow> (\<exists>s' w'. r = (Inr s', w'))"
    and body: "(if vol \<le> hi then
        (case predictManufacturingCost ld vol w of
           (Inl e, w') \<Rightarrow> Some (Inl e, w')
         | (Inr c, w') \<Rightarrow>
             scan' ld hi step (vol + step) (improve vol c s) (observe (improve vol c s) w'))
      else Some (Inr s, w)) = Some r"
  show "(\<forall>v. \<exists>c. evaluate (modelInUse ld (cache w)) v = Inr c) \<longrightarrow> (\<exists>s' w'. r = (Inr s', w'))"
  proof (intro impI)
    assume tot: "\<forall>v. \<exists>c. evaluate (modelInUse ld (cache w)) v = Inr c"
    show "\<exists>s' w'. r = (Inr s', w')"
    proof (cases "vol \<le> hi")
      case False
      then show ?thesis using body by auto
    next
      case True
      obtain c where c: "evaluate (modelInUse ld (cache w)) vol = Inr c"
        using tot by blast
      let ?w1 = "w\<lparr>cache := snd (loadCostOptimizationModel ld (cache w)), calls := calls w @ [vol]\<rparr>"
      have "scan' ld hi step (vol + step) (improve vol c s) (observe (improve vol c s) ?w1) = Some r"
        using body True c by (simp add: predictManufacturingCost_eq)
      from IH [OF this] tot show ?thesis
        by (simp add: observe_simps modelInUse_after_load)
    qed
  qed
qed

lemma scan_diverges:
  assumes "step \<le> 0" and "vol \<le> hi"
    and "\<forall>v. \<exists>c. evaluate (modelInUse ld (cache w)) v = Inr c"
  shows "scan ld hi step vol s w = None"
proof (cases "scan ld hi step vol s w")
  case None
  then show ?thesis .
next
  case (Some r)
  from scan_nonpositive_step [OF Some] assms(1,2) obtain e w' where "r = (Inl e, w')" by blast
  moreover from scan_no_error [OF Some] assms(3) obtain s' w'' where "r = (Inr s', w'')" by blast
  ultimately show ?thesis by simp
qed

text \<open>
  C1 (as amended). The search validates nothing and has no error of its own. With
  \<open>minVolume > maxVolume\<close> (whatever the step) no loop body runs: the evaluator is not
  called, the state is untouched and the search returns the rounded \<open>minVolume\<close> with cost
  \<open>Infinity\<close>. With \<open>minVolume \<le> maxVolume\<close> and a step that is not positive the first loop
  calls the evaluator and never ends: the search does not return, unless an evaluator
  call throws, and then it fails with that error.
\<close>

theorem search_invalid_range:
  "(mx < mn \<longrightarrow>
      findOptimalProductionVolume ld mn mx st w =
        Some (Inr \<lparr>volume = round mn, cost = Infinity\<rparr>, w)) \<and>
   (mn \<le> mx \<and> st \<le> 0 \<longrightarrow>
      findOptimalProductionVolume ld mn mx st w = None \<or>
      (\<exists>e w'. findOptimalProductionVolume ld mn mx st w = Some (Inl e, w') \<and>
         length (calls w) < length (calls w'))) \<and>
   (mn \<le> mx \<and> st \<le> 0 \<and> (\<forall>v. \<exists>c. evaluate (modelInUse ld (cache w)) v = Inr c) \<longrightarrow>
      findOptimalProductionVolume ld mn mx st w = None)"
proof (intro conjI impI)
  assume "mx < mn"
  then show "findOptimalProductionVolume ld mn mx st w =
      Some (Inr \<lparr>volume = round mn, cost = Infinity\<rparr>, w)"
    by (simp add: findOptimalProductionVolume_def Let_def scan_empty min.strict_coboundedI1
        max.strict_coboundedI1)
next
  let ?s0 = "\<lparr>bestVolume = mn, lowestCost = Infinity\<rparr>"
  assume a: "mn \<le> mx \<and> st \<le> 0"
  show "findOptimalProductionVolume ld mn mx st w = None \<or>
      (\<exists>e w'. findOptimalProductionVolume ld mn mx st w = Some (Inl e, w') \<and>
         length (calls w) < length (calls w'))"
  proof (cases "scan ld mx st mn ?s0 w")
    case None
    then show ?thesis by (simp add: findOptimalProductionVolume_def)
  next
    case (Some r)
    from scan_nonpositive_step [OF Some] a obtain e w' where
      "r = (Inl e, w')" "length (calls w) < length (calls w')" by blast
    then show ?thesis using Some by (simp add: findOptimalProductionVolume_def)
  qed
next
  assume "mn \<le> mx \<and> st \<le> 0 \<and> (\<forall>v. \<exists>c. evaluate (modelInUse ld (cache w)) v = Inr c)"
  then have "scan ld mx st mn \<lparr>bestVolume = mn, lowestCost = Infinity\<rparr> w = None"
    by (intro scan_diverges) simp_all
  then show "findOptimalProductionVolume ld mn mx st w = None"
    by (simp add: findOptimalProductionVolume_def)
qed

theorem search_invalid_range_witness:
  "(100::real) < 200 \<and>
   findOptimalProductionVolume (Inl (Error ''model.json not found'')) 200 100 10 initialWorld =
     Some (Inr \<lparr>volume = 200, cost = Infinity\<rparr>, initialWorld) \<and>
   (100::real) \<le> 10000 \<and> (- 500::real) \<le> 0 \<and>
   (\<forall>v. \<exists>c. evaluate (modelInUse (Inl (Error ''model.json not found'')) (cache initialWorld)) v =
      Inr c) \<and>
   findOptimalProductionVolume (Inl (Error ''model.json not found'')) 100 10000 (- 500)
     initialWorld = None"
proof -
  have "modelInUse (Inl (Error ''model.json not found'')) (cache initialWorld) = createFallbackModel"
    by (simp add: modelInUse_simps initialWorld_def initialCache_def)
  then have tot: "\<forall>v. \<exists>c.
      evaluate (modelInUse (Inl (Error ''model.json not found'')) (cache initialWorld)) v = Inr c"
    by (simp only: evaluate_fallback) blast
  show ?thesis
    using tot
      search_invalid_range [where mn = 200 and mx = 100 and st = 10 and w = initialWorld
        and ld = "Inl (Error ''model.json not found'')"]
      search_invalid_range [where mn = 100 and mx = 10000 and st = "- 500" and w = initialWorld
        and ld = "Inl (Error ''model.json not found'')"]
    by simp
qed

theorem search_inverted_range_returns:
  "findOptimalProductionVolume (Inl (Error ''model.json not found'')) 1000 100 50 initialWorld =
     Some (Inr \<lparr>volume = 1000, cost = Infinity\<rparr>, initialWorld) \<and>
   findOptimalProductionVolume (Inl (Error ''model.json not found'')) 100 10000 0 initialWorld =
     None"
proof -
  have "scan (Inl (Error ''model.json not found'')) 10000 0 100
      \<lparr>bestVolume = 100, lowestCost = Infinity\<rparr> initialWorld = None"
    by (rule scan_diverges)
      (simp_all add: modelInUse_simps initialWorld_def initialCache_def evaluate_fallback)
  then show ?thesis
    by (simp add: findOptimalProductionVolume_def Let_def scan_empty)
qed

section \<open>A range of one point\<close>





section \<open>Properties of every result of the search\<close>

lemma predictManufacturingCost_calls:
  "predictManufacturingCost ld v w = (out, w') \<Longrightarrow> calls w' = calls w @ [v]"
  by (auto simp add: predictManufacturingCost_eq)

lemma predictManufacturingCost_lows:
  "predictManufacturingCost ld v w = (out, w') \<Longrightarrow> lows w' = lows w"
  by (auto simp add: predictManufacturingCost_eq)

text \<open>Every pass only adds calls, and a pass over a range that is not empty adds one.\<close>

lemma scan_calls_grow:
  assumes "scan ld hi step vol s w = Some y"
  shows "length (calls w) \<le> length (calls (snd y)) \<and>
    (vol \<le> hi \<longrightarrow> length (calls w) < length (calls (snd y)))"
proof (rule scan.raw_induct [where P = "\<lambda>ld hi step vol s w y.
    length (calls w) \<le> length (calls (snd y)) \<and>
    (vol \<le> hi \<longrightarrow> length (calls w) < length (calls (snd y)))", OF _ assms])
  fix scan' ld hi step vol s w y
  assume IH: "\<And>ld hi step vol s w y. scan' ld hi step vol s w = Some y \<Longrightarrow>
      length (calls w) \<le> length (calls (snd y)) \<and>
      (vol \<le> hi \<longrightarrow> length (calls w) < length (calls (snd y)))"
    and body: "(if vol \<le> hi then
        (case predictManufacturingCost ld vol w of
           (Inl e, w') \<Rightarrow> Some (Inl e, w')
         | (Inr c, w') \<Rightarrow>
             scan' ld hi step (vol + step) (improve vol c s) (observe (improve vol c s) w'))
      else Some (Inr s, w)) = Some y"
  show "length (calls w) \<le> length (calls (snd y)) \<and>
      (vol \<le> hi \<longrightarrow> length (calls w) < length (calls (snd y)))"
  proof (cases "vol \<le> hi")
    case False
    then show ?thesis using body by auto
  next
    case True
    show ?thesis
    proof (cases "evaluate (modelInUse ld (cache w)) vol")
      case (Inl e)
      then show ?thesis using body True by (auto simp add: predictManufacturingCost_eq)
    next
      case (Inr c)
      let ?w1 = "w\<lparr>cache := snd (loadCostOptimizationModel ld (cache w)), calls := calls w @ [vol]\<rparr>"
      have "scan' ld hi step (vol + step) (improve vol c s) (observe (improve vol c s) ?w1) = Some y"
        using body True Inr by (simp add: predictManufacturingCost_eq)
      from IH [OF this] show ?thesis by (simp add: observe_simps)
    qed
  qed
qed

lemma find_calls_grow:
  assumes "findOptimalProductionVolume ld mn mx st w = Some (r, w')" and "mn \<le> mx"
  shows "length (calls w) < length (calls w')"
proof -
  let ?start = "\<lparr>bestVolume = mn, lowestCost = Infinity\<rparr>"
  obtain r1 w1 where 1: "scan ld mx st mn ?start w = Some (r1, w1)"
    using assms(1) by (cases "scan ld mx st mn ?start w") (auto simp add: findOptimalProductionVolume_def)
  have g1: "length (calls w) < length (calls w1)"
    using scan_calls_grow [OF 1] assms(2) by simp
  show ?thesis
  proof (cases r1)
    case (Inl e)
    then show ?thesis using assms(1) 1 g1 by (simp add: findOptimalProductionVolume_def)
  next
    case (Inr s1)
    let ?scan2 = "scan ld (min mx (bestVolume s1 + st)) (st / 10) (max mn (bestVolume s1 - st)) s1 w1"
    obtain r2 w2 where 2: "?scan2 = Some (r2, w2)"
      using assms(1) 1 Inr by (cases ?scan2) (auto simp add: findOptimalProductionVolume_def Let_def)
    have g2: "length (calls w1) \<le> length (calls w2)"
      using scan_calls_grow [OF 2] by simp
    show ?thesis
    proof (cases r2)
      case (Inl e)
      then show ?thesis using assms(1) 1 Inr 2 g1 g2
        by (simp add: findOptimalProductionVolume_def Let_def)
    next
      case s2: (Inr s2)
      let ?scan3 = "scan ld (min mx (bestVolume s2 + st / 10)) (st / 10 / 5)
        (max mn (bestVolume s2 - st / 10)) s2 w2"
      obtain r3 w3 where 3: "?scan3 = Some (r3, w3)"
        using assms(1) 1 Inr 2 s2
        by (cases ?scan3) (auto simp add: findOptimalProductionVolume_def Let_def)
      have g3: "length (calls w2) \<le> length (calls w3)"
        using scan_calls_grow [OF 3] by simp
      have "w' = w3"
        using assms(1) 1 Inr 2 s2 3
        by (cases r3) (auto simp add: findOptimalProductionVolume_def Let_def)
      then show ?thesis using g1 g2 g3 by simp
    qed
  qed
qed

text \<open>
  C6. With \<open>minVolume \<le> maxVolume\<close> and a positive step, whenever the search ends (with a
  result or with the evaluator's error), every volume it has passed to the evaluator, in
  any of the three passes, lies in \<open>[minVolume, maxVolume]\<close>; there is at least one such
  call.
\<close>

theorem search_range_respect:
  assumes "mn \<le> mx" and "0 < st"
    and "findOptimalProductionVolume ld mn mx st w = Some (r, w')"
  shows "\<exists>vs. calls w' = calls w @ vs \<and> vs \<noteq> [] \<and> (\<forall>v \<in> set vs. mn \<le> v \<and> v \<le> mx)"
proof -
  let ?J = "\<lambda>(s::search) u. \<exists>vs. calls u = calls w @ vs \<and> (\<forall>v \<in> set vs. mn \<le> v \<and> v \<le> mx)"
  have "case r of Inl e \<Rightarrow> ?J undefined w'
    | Inr res \<Rightarrow> \<exists>s. ?J s w' \<and>
        res = \<lparr>volume = round (bestVolume s), cost = mathRound (lowestCost s)\<rparr>"
  proof (rule find_result_rule [where J = ?J and E = "\<lambda>e. ?J undefined", OF assms(3)])
    show "?J \<lparr>bestVolume = mn, lowestCost = Infinity\<rparr> w" by simp
  next
    fix v s u c u'
    assume "?J s u" "0 < st \<longrightarrow> mn \<le> v" "v \<le> mx" "predictManufacturingCost ld v u = (Inr c, u')"
    then show "?J (improve v c s) (observe (improve v c s) u')"
      using assms(2) by (auto simp add: observe_simps dest!: predictManufacturingCost_calls)
  next
    fix v s u e u'
    assume "?J s u" "0 < st \<longrightarrow> mn \<le> v" "v \<le> mx" "predictManufacturingCost ld v u = (Inl e, u')"
    then show "?J undefined u'"
      using assms(2) by (auto dest!: predictManufacturingCost_calls)
  qed
  then have "?J undefined w'"
    by (cases r) auto
  then obtain vs where vs: "calls w' = calls w @ vs" "\<forall>v \<in> set vs. mn \<le> v \<and> v \<le> mx"
    by blast
  have "vs \<noteq> []"
    using find_calls_grow [OF assms(3) assms(1)] vs(1) by auto
  then show ?thesis using vs by blast
qed

theorem search_range_respect_witness:
  "(100::real) \<le> 10000 \<and> (0::real) < 500 \<and>
   (\<exists>r w' vs. findOptimalProductionVolume (Inl (Error ''model.json not found'')) 100 10000 500
        initialWorld = Some (r, w') \<and>
      calls w' = calls initialWorld @ vs \<and> vs \<noteq> [] \<and>
      (\<forall>v \<in> set vs. 100 \<le> v \<and> v \<le> 10000))"
proof -
  have "\<exists>r w'. findOptimalProductionVolume (Inl (Error ''model.json not found'')) 100 10000 500
      initialWorld = Some (r, w')"
    by (simp add: run_simps)
  then obtain r w' where run: "findOptimalProductionVolume
      (Inl (Error ''model.json not found'')) 100 10000 500 initialWorld = Some (r, w')"
    by blast
  from search_range_respect [OF _ _ run] run show ?thesis by auto
qed

section \<open>The running minimum\<close>

lemma extLe_refl: "extLe a a"
  by (cases a) simp_all

lemma extLe_trans: "extLe a b \<Longrightarrow> extLe b c \<Longrightarrow> extLe a c"
  by (cases a; cases b; cases c) simp_all

lemma improve_le: "extLe (lowestCost (improve v c s)) (lowestCost s)"
  by (cases "lowestCost s") (simp_all add: improve_def)

lemma nonIncreasing_snoc:
  "nonIncreasing (ls @ [l]) \<longleftrightarrow> nonIncreasing ls \<and> (\<forall>y \<in> set ls. extLe l y)"
  by (auto simp add: nonIncreasing_def sorted_wrt_append)

text \<open>
  C5. Whenever the search ends (with a result or with the evaluator's error, for any range
  and step), the values \<open>lowestCost\<close> has taken after the successive evaluator calls,
  starting from \<open>Infinity\<close> and running through all three passes, never increase. On a
  normal return there is one such value per evaluator call, and the last of them is the
  cost returned (rounded).
\<close>

theorem search_lowestCost_nonincreasing:
  assumes "findOptimalProductionVolume ld mn mx st w = Some (r, w')"
  shows "\<exists>ls. lows w' = lows w @ ls \<and> nonIncreasing (Infinity # ls) \<and>
           (case r of
              Inl e \<Rightarrow> True
            | Inr res \<Rightarrow> length (calls w') = length (calls w) + length ls \<and>
                cost res = mathRound (last (Infinity # ls)))"
proof -
  let ?J = "\<lambda>(s::search) u. \<exists>ls. lows u = lows w @ ls \<and> length (calls u) = length (calls w) + length ls \<and>
      nonIncreasing (Infinity # ls) \<and> (\<forall>y \<in> set (Infinity # ls). extLe (lowestCost s) y) \<and>
      lowestCost s = last (Infinity # ls)"
  let ?E = "\<lambda>(e::error) u. \<exists>ls. lows u = lows w @ ls \<and> nonIncreasing (Infinity # ls)"
  have q: "case r of Inl e \<Rightarrow> ?E e w'
    | Inr res \<Rightarrow> \<exists>s. ?J s w' \<and>
        res = \<lparr>volume = round (bestVolume s), cost = mathRound (lowestCost s)\<rparr>"
  proof (rule find_result_rule [where J = ?J and E = ?E, OF assms])
    show "?J \<lparr>bestVolume = mn, lowestCost = Infinity\<rparr> w"
      by (simp add: nonIncreasing_def)
  next
    fix v s u c u'
    assume j: "?J s u" and p: "predictManufacturingCost ld v u = (Inr c, u')"
    from j obtain ls where ls: "lows u = lows w @ ls"
      "length (calls u) = length (calls w) + length ls"
      "nonIncreasing (Infinity # ls)" "\<forall>y \<in> set (Infinity # ls). extLe (lowestCost s) y"
      by blast
    let ?s = "improve v c s"
    have all: "\<forall>y \<in> set (Infinity # ls). extLe (lowestCost ?s) y"
      using ls(4) improve_le [of v c s] by (blast intro: extLe_trans)
    have "lows (observe ?s u') = lows w @ (ls @ [lowestCost ?s])"
      using ls(1) predictManufacturingCost_lows [OF p] by (simp add: observe_simps)
    moreover have "length (calls (observe ?s u')) = length (calls w) + length (ls @ [lowestCost ?s])"
      using ls(2) predictManufacturingCost_calls [OF p] by (simp add: observe_simps)
    moreover have "nonIncreasing (Infinity # (ls @ [lowestCost ?s]))"
      using ls(3) all nonIncreasing_snoc [of "Infinity # ls" "lowestCost ?s"] by simp
    moreover have "\<forall>y \<in> set (Infinity # (ls @ [lowestCost ?s])). extLe (lowestCost ?s) y"
      using all by (simp add: extLe_refl)
    moreover have "lowestCost ?s = last (Infinity # (ls @ [lowestCost ?s]))"
      by simp
    ultimately show "?J ?s (observe ?s u')" by blast
  next
    fix v s u e u'
    assume "?J s u" "predictManufacturingCost ld v u = (Inl e, u')"
    then show "?E e u'"
      by (auto dest!: predictManufacturingCost_lows)
  qed
  show ?thesis
  proof (cases r)
    case (Inl e)
    then show ?thesis using q by auto
  next
    case (Inr res)
    then obtain s :: search and ls where "lows w' = lows w @ ls"
      "length (calls w') = length (calls w) + length ls" "nonIncreasing (Infinity # ls)"
      "lowestCost s = last (Infinity # ls)" "cost res = mathRound (lowestCost s)"
      using q by (auto simp del: last.simps)
    then show ?thesis using Inr by (auto simp del: last.simps)
  qed
qed

theorem search_lowestCost_nonincreasing_witness:
  "\<exists>r w' ls. findOptimalProductionVolume (Inl (Error ''model.json not found'')) 100 10000 500
       initialWorld = Some (r, w') \<and>
     lows w' = lows initialWorld @ ls \<and> nonIncreasing (Infinity # ls) \<and>
     (case r of
        Inl e \<Rightarrow> True
      | Inr res \<Rightarrow> length (calls w') = length (calls initialWorld) + length ls \<and>
          cost res = mathRound (last (Infinity # ls)))"
proof -
  have "\<exists>r w'. findOptimalProductionVolume (Inl (Error ''model.json not found'')) 100 10000 500
      initialWorld = Some (r, w')"
    by (simp add: run_simps)
  then obtain r w' where run: "findOptimalProductionVolume
      (Inl (Error ''model.json not found'')) 100 10000 500 initialWorld = Some (r, w')"
    by blast
  from search_lowestCost_nonincreasing [OF run] run show ?thesis by blast
qed

section \<open>Ties\<close>

lemma earliestMinimum_first: "earliestMinimum f [v] 0"
  by (simp add: earliestMinimum_def)

lemma earliestMinimum_better:
  assumes "earliestMinimum f vs i" and "f v < f (vs ! i)"
  shows "earliestMinimum f (vs @ [v]) (length vs)"
  using assms by (auto simp add: earliestMinimum_def list_all_iff)

lemma earliestMinimum_keep:
  assumes "earliestMinimum f vs i" and "\<not> f v < f (vs ! i)"
  shows "earliestMinimum f (vs @ [v]) i"
  using assms by (auto simp add: earliestMinimum_def list_all_iff nth_append)

text \<open>
  C7 (as amended). The running best is replaced only on strict improvement. For an
  evaluator that never throws and a range that is not empty, whenever the search returns,
  the volume it has kept is the earliest-visited one of least cost among all the volumes
  visited in the three passes, a volume visited again later with equal cost never
  replacing it. What the search returns is that volume and its cost after \<open>Math.round\<close>.
\<close>

theorem search_tie_break:
  assumes "mn \<le> mx"
    and "\<forall>v. evaluate (modelInUse ld (cache w)) v = Inr (f v)"
    and "findOptimalProductionVolume ld mn mx st w = Some (r, w')"
  shows "\<exists>res vs i. r = Inr res \<and> calls w' = calls w @ vs \<and> earliestMinimum f vs i \<and>
           volume res = round (vs ! i) \<and> cost res = Finite (round (f (vs ! i)))"
proof -
  let ?m = "modelInUse ld (cache w)"
  let ?J = "\<lambda>(s::search) u. modelInUse ld (cache u) = ?m \<and>
      (\<exists>vs. calls u = calls w @ vs \<and>
         (vs = [] \<and> lowestCost s = Infinity \<or>
          (\<exists>i. earliestMinimum f vs i \<and> bestVolume s = vs ! i \<and>
             lowestCost s = Finite (f (vs ! i)))))"
  have q: "case r of Inl e \<Rightarrow> False
    | Inr res \<Rightarrow> \<exists>s. ?J s w' \<and>
        res = \<lparr>volume = round (bestVolume s), cost = mathRound (lowestCost s)\<rparr>"
  proof (rule find_result_rule [where J = ?J and E = "\<lambda>e u. False", OF assms(3)])
    show "?J \<lparr>bestVolume = mn, lowestCost = Infinity\<rparr> w" by simp
  next
    fix v s u c u'
    assume j: "?J s u" and p: "predictManufacturingCost ld v u = (Inr c, u')"
    from j obtain vs where m: "modelInUse ld (cache u) = ?m" and vs: "calls u = calls w @ vs"
      and best: "vs = [] \<and> lowestCost s = Infinity \<or>
        (\<exists>i. earliestMinimum f vs i \<and> bestVolume s = vs ! i \<and> lowestCost s = Finite (f (vs ! i)))"
      by blast
    let ?s = "improve v c s"
    have c: "c = f v"
      using p m assms(2) by (simp add: predictManufacturingCost_eq)
    have "modelInUse ld (cache (observe ?s u')) = ?m"
      using p m by (auto simp add: predictManufacturingCost_eq observe_simps modelInUse_after_load)
    moreover have "calls (observe ?s u') = calls w @ (vs @ [v])"
      using vs predictManufacturingCost_calls [OF p] by (simp add: observe_simps)
    moreover have "\<exists>i. earliestMinimum f (vs @ [v]) i \<and> bestVolume ?s = (vs @ [v]) ! i \<and>
        lowestCost ?s = Finite (f ((vs @ [v]) ! i))"
      using best
    proof
      assume "vs = [] \<and> lowestCost s = Infinity"
      then have "earliestMinimum f (vs @ [v]) 0 \<and> bestVolume ?s = (vs @ [v]) ! 0 \<and>
          lowestCost ?s = Finite (f ((vs @ [v]) ! 0))"
        by (simp add: improve_def c earliestMinimum_first)
      then show ?thesis ..
    next
      assume "\<exists>i. earliestMinimum f vs i \<and> bestVolume s = vs ! i \<and> lowestCost s = Finite (f (vs ! i))"
      then obtain i where i: "earliestMinimum f vs i" "bestVolume s = vs ! i"
        "lowestCost s = Finite (f (vs ! i))"
        by blast
      then have len: "i < length vs" by (simp add: earliestMinimum_def)
      show ?thesis
      proof (cases "f v < f (vs ! i)")
        case True
        then have "earliestMinimum f (vs @ [v]) (length vs) \<and>
            bestVolume ?s = (vs @ [v]) ! length vs \<and>
            lowestCost ?s = Finite (f ((vs @ [v]) ! length vs))"
          using i by (simp add: improve_def c earliestMinimum_better)
        then show ?thesis ..
      next
        case False
        then have "earliestMinimum f (vs @ [v]) i \<and> bestVolume ?s = (vs @ [v]) ! i \<and>
            lowestCost ?s = Finite (f ((vs @ [v]) ! i))"
          using i len by (simp add: improve_def c earliestMinimum_keep nth_append)
        then show ?thesis ..
      qed
    qed
    ultimately show "?J ?s (observe ?s u')" by blast
  next
    fix v s u e u'
    assume "?J s u" "predictManufacturingCost ld v u = (Inl e, u')"
    then show False
      using assms(2) by (simp add: predictManufacturingCost_eq)
  qed
  from q obtain res where r: "r = Inr res" by (cases r) auto
  with q obtain s :: search and vs where vs: "calls w' = calls w @ vs"
    and best: "vs = [] \<and> lowestCost s = Infinity \<or>
      (\<exists>i. earliestMinimum f vs i \<and> bestVolume s = vs ! i \<and> lowestCost s = Finite (f (vs ! i)))"
    and res: "res = \<lparr>volume = round (bestVolume s), cost = mathRound (lowestCost s)\<rparr>"
    by auto
  have "vs \<noteq> []"
    using find_calls_grow [OF assms(3) assms(1)] vs by auto
  with best obtain i where "earliestMinimum f vs i" "bestVolume s = vs ! i"
    "lowestCost s = Finite (f (vs ! i))"
    by blast
  then show ?thesis using r vs res by auto
qed

theorem search_tie_break_witness:
  "(1 / 2 :: real) \<le> 3 \<and>
   (\<forall>v. evaluate (modelInUse (Inr (Model (\<lambda>x. Inr 0))) (cache initialWorld)) v = Inr 5000) \<and>
   (\<exists>r w' res vs i. findOptimalProductionVolume (Inr (Model (\<lambda>x. Inr 0))) (1 / 2) 3 (5 / 2)
        initialWorld = Some (r, w') \<and> r = Inr res \<and>
      calls w' = calls initialWorld @ vs \<and> earliestMinimum (\<lambda>v. 5000) vs i \<and>
      volume res = round (vs ! i) \<and> cost res = Finite (round (5000 :: real)))"
proof -
  have tot: "\<forall>v. evaluate (modelInUse (Inr (Model (\<lambda>x. Inr 0))) (cache initialWorld)) v = Inr 5000"
    by (simp add: modelInUse_simps initialWorld_def initialCache_def evaluate_def denormalizeCost_def)
  have "\<exists>r w'. findOptimalProductionVolume (Inr (Model (\<lambda>x. Inr 0))) (1 / 2) 3 (5 / 2)
      initialWorld = Some (r, w')"
    by (simp add: findOptimalProductionVolume_def scan.simps predictManufacturingCost_eq
      modelInUse_simps load_simps improve_def observe_def initialWorld_def initialCache_def
      Let_def evaluate_def denormalizeCost_def)
  then obtain r w' where run: "findOptimalProductionVolume (Inr (Model (\<lambda>x. Inr 0)))
      (1 / 2) 3 (5 / 2) initialWorld = Some (r, w')"
    by blast
  from search_tie_break [OF _ tot run] tot run show ?thesis by auto
qed

theorem search_returns_rounded_volume:
  "\<exists>res w'. findOptimalProductionVolume (Inr (Model (\<lambda>x. Inr 0))) (1 / 2) 3 (5 / 2)
       initialWorld = Some (Inr res, w') \<and>
     earliestMinimum (\<lambda>v. 5000) (calls w') 0 \<and>
     calls w' ! 0 = 1 / 2 \<and> calls w' ! 4 = 1 \<and> volume res = 1 \<and>
     evaluate (Model (\<lambda>x. Inr 0)) (1 / 2) = Inr 5000 \<and>
     evaluate (Model (\<lambda>x. Inr 0)) 1 = Inr 5000"
  by (simp add: findOptimalProductionVolume_def scan.simps predictManufacturingCost_eq
      modelInUse_simps load_simps improve_def observe_def initialWorld_def initialCache_def
      Let_def round_def evaluate_def denormalizeCost_def earliestMinimum_def)

section \<open>Failures\<close>

text \<open>
  C8 (as amended). A failure to load the model is not a failure of the evaluator:
  \<open>loadCostOptimizationModel\<close> catches it, substitutes the fallback model and caches it, and
  \<open>predictManufacturingCost\<close> returns a cost computed by the fallback. Only an exception
  thrown by the model in use reaches the search. Whenever the search ends, for any range
  and step, it has failed exactly when an evaluator call threw: it then fails with that
  very error, unwrapped, the call that threw is its last evaluator call and every earlier
  call had succeeded; and when it returns normally every call had succeeded.
\<close>

theorem search_propagates_failure:
  "(costOptimization (cache w) = None \<longrightarrow>
      (\<exists>c. fst (predictManufacturingCost (Inl e0) v0 w) = Inr c) \<and>
      costOptimization (cache (snd (predictManufacturingCost (Inl e0) v0 w))) =
        Some createFallbackModel) \<and>
   (findOptimalProductionVolume ld mn mx st w = Some (r, w') \<longrightarrow>
      (\<exists>vs. calls w' = calls w @ vs \<and>
         (case r of
            Inl e \<Rightarrow> vs \<noteq> [] \<and> evaluate (modelInUse ld (cache w)) (last vs) = Inl e \<and>
              list_all (\<lambda>v. \<exists>c. evaluate (modelInUse ld (cache w)) v = Inr c) (butlast vs)
          | Inr res \<Rightarrow> list_all (\<lambda>v. \<exists>c. evaluate (modelInUse ld (cache w)) v = Inr c) vs)))"
proof (intro conjI impI)
  assume "costOptimization (cache w) = None"
  then show "\<exists>c. fst (predictManufacturingCost (Inl e0) v0 w) = Inr c"
    by (simp add: predictManufacturingCost_eq modelInUse_simps evaluate_fallback)
next
  assume "costOptimization (cache w) = None"
  then show "costOptimization (cache (snd (predictManufacturingCost (Inl e0) v0 w))) =
      Some createFallbackModel"
    by (simp add: predictManufacturingCost_eq load_simps)
next
  let ?m = "modelInUse ld (cache w)"
  let ?ok = "\<lambda>v. \<exists>c. evaluate ?m v = Inr c"
  let ?J = "\<lambda>(s::search) u. modelInUse ld (cache u) = ?m \<and>
      (\<exists>vs. calls u = calls w @ vs \<and> list_all ?ok vs)"
  let ?E = "\<lambda>e u. \<exists>vs. calls u = calls w @ vs \<and> vs \<noteq> [] \<and> evaluate ?m (last vs) = Inl e \<and>
      list_all ?ok (butlast vs)"
  assume run: "findOptimalProductionVolume ld mn mx st w = Some (r, w')"
  have q: "case r of Inl e \<Rightarrow> ?E e w'
    | Inr res \<Rightarrow> \<exists>s. ?J s w' \<and>
        res = \<lparr>volume = round (bestVolume s), cost = mathRound (lowestCost s)\<rparr>"
  proof (rule find_result_rule [where J = ?J and E = ?E, OF run])
    show "?J \<lparr>bestVolume = mn, lowestCost = Infinity\<rparr> w" by simp
  next
    fix v s u c u'
    assume j: "?J s u" and p: "predictManufacturingCost ld v u = (Inr c, u')"
    from j obtain vs where m: "modelInUse ld (cache u) = ?m" and vs: "calls u = calls w @ vs"
      "list_all ?ok vs"
      by blast
    let ?s = "improve v c s"
    have "evaluate ?m v = Inr c"
      using p m by (simp add: predictManufacturingCost_eq)
    then have "list_all ?ok (vs @ [v])"
      using vs(2) by simp
    moreover have "modelInUse ld (cache (observe ?s u')) = ?m"
      using p m by (auto simp add: predictManufacturingCost_eq observe_simps modelInUse_after_load)
    moreover have "calls (observe ?s u') = calls w @ (vs @ [v])"
      using vs(1) predictManufacturingCost_calls [OF p] by (simp add: observe_simps)
    ultimately show "?J ?s (observe ?s u')" by blast
  next
    fix v s u e u'
    assume j: "?J s u" and p: "predictManufacturingCost ld v u = (Inl e, u')"
    from j obtain vs where m: "modelInUse ld (cache u) = ?m" and vs: "calls u = calls w @ vs"
      "list_all ?ok vs"
      by blast
    have "evaluate ?m (last (vs @ [v])) = Inl e"
      using p m by (simp add: predictManufacturingCost_eq)
    moreover have "list_all ?ok (butlast (vs @ [v]))"
      using vs(2) by simp
    moreover have "calls u' = calls w @ (vs @ [v])"
      using vs(1) predictManufacturingCost_calls [OF p] by simp
    ultimately show "?E e u'" by blast
  qed
  show "\<exists>vs. calls w' = calls w @ vs \<and>
      (case r of
         Inl e \<Rightarrow> vs \<noteq> [] \<and> evaluate ?m (last vs) = Inl e \<and> list_all ?ok (butlast vs)
       | Inr res \<Rightarrow> list_all ?ok vs)"
  proof (cases r)
    case (Inl e)
    then show ?thesis using q by auto
  next
    case (Inr res)
    then show ?thesis using q by auto
  qed
qed

theorem search_propagates_failure_witness:
  "costOptimization (cache initialWorld) = None \<and>
   (\<exists>c. fst (predictManufacturingCost (Inl (Error ''Failed to fetch'')) 5050 initialWorld) =
      Inr c) \<and>
   costOptimization (cache (snd (predictManufacturingCost (Inl (Error ''Failed to fetch'')) 5050
     initialWorld))) = Some createFallbackModel \<and>
   (\<exists>w' vs. findOptimalProductionVolume
       (Inr (Model (\<lambda>x. if x = 10 / 99 then Inl (Error ''predict failed'') else Inr 0)))
       100 10000 500 initialWorld = Some (Inl (Error ''predict failed''), w') \<and>
     calls w' = calls initialWorld @ vs \<and> vs = [100, 600, 1100] \<and>
     evaluate (modelInUse
         (Inr (Model (\<lambda>x. if x = 10 / 99 then Inl (Error ''predict failed'') else Inr 0)))
         (cache initialWorld)) (last vs) = Inl (Error ''predict failed''))"
proof -
  let ?ld = "Inr (Model (\<lambda>x. if x = 10 / 99 then Inl (Error ''predict failed'') else Inr 0))"
  have run: "findOptimalProductionVolume ?ld 100 10000 500 initialWorld =
     Some (Inl (Error ''predict failed''),
       \<lparr>cache = \<lparr>costOptimization =
            Some (Model (\<lambda>x. if x = 10 / 99 then Inl (Error ''predict failed'') else Inr 0)),
          demandForecast = None\<rparr>,
        calls = [100, 600, 1100], lows = [Finite 5000, Finite 5000]\<rparr>)"
    by (simp add: findOptimalProductionVolume_def scan.simps predictManufacturingCost_eq
      modelInUse_simps load_simps improve_def observe_def initialWorld_def initialCache_def
      Let_def evaluate_def denormalizeCost_def normalizeProductionVolume_def)
  have c: "costOptimization (cache initialWorld) = None"
    by (simp add: initialWorld_def initialCache_def)
  from search_propagates_failure [of initialWorld "Error ''Failed to fetch''" 5050 ?ld 100 10000
      500 "Inl (Error ''predict failed'')" "\<lparr>cache = \<lparr>costOptimization =
            Some (Model (\<lambda>x. if x = 10 / 99 then Inl (Error ''predict failed'') else Inr 0)),
          demandForecast = None\<rparr>,
        calls = [100, 600, 1100], lows = [Finite 5000, Finite 5000]\<rparr>"] run c
  show ?thesis
    by (auto simp add: initialWorld_def)
qed

theorem load_failure_is_masked:
  "(\<exists>c. fst (predictManufacturingCost (Inl (Error ''Failed to fetch'')) 100 initialWorld) =
      Inr c) \<and>
   cache (snd (predictManufacturingCost (Inl (Error ''Failed to fetch'')) 100 initialWorld)) =
     \<lparr>costOptimization = Some createFallbackModel, demandForecast = None\<rparr> \<and>
   map_option fst (findOptimalProductionVolume (Inl (Error ''Failed to fetch'')) 500 500 100
     initialWorld) = Some (Inr \<lparr>volume = 500, cost = Finite 94767\<rparr>)"
  by (simp add: run_simps)

section \<open>The module-level cache\<close>

lemma load_populates:
  "snd (loadCostOptimizationModel ld c) = c\<lparr>costOptimization := Some (modelInUse ld c)\<rparr>"
  by (simp add: modelInUse_def loadCostOptimizationModel_def split: option.splits sum.splits)

text \<open>
  C9 (as amended). Every evaluator call has one effect on module-level state: it leaves
  \<open>modelCache.costOptimization\<close> set to the model in use (the model already cached, else
  the loaded model, else the fallback) and changes nothing else of the cache. So does the
  search through the evaluator calls it issues: whenever it ends after a range that is
  not empty, the cache holds that model. The cached model is shared with every later
  call and invocation, which work with it whatever loading would give then.
\<close>

theorem search_cache_effect:
  "cache (snd (predictManufacturingCost ld v w)) =
     (cache w)\<lparr>costOptimization := Some (modelInUse ld (cache w))\<rparr> \<and>
   modelInUse ld' (cache (snd (predictManufacturingCost ld v w))) = modelInUse ld (cache w) \<and>
   (mn \<le> mx \<and> findOptimalProductionVolume ld mn mx st w = Some (r, w') \<longrightarrow>
      cache w' = (cache w)\<lparr>costOptimization := Some (modelInUse ld (cache w))\<rparr> \<and>
      demandForecast (cache w') = demandForecast (cache w) \<and>
      modelInUse ld' (cache w') = modelInUse ld (cache w))"
proof (intro conjI impI)
  show "cache (snd (predictManufacturingCost ld v w)) =
      (cache w)\<lparr>costOptimization := Some (modelInUse ld (cache w))\<rparr>"
    by (simp add: predictManufacturingCost_eq load_populates)
  show "modelInUse ld' (cache (snd (predictManufacturingCost ld v w))) = modelInUse ld (cache w)"
    by (simp add: predictManufacturingCost_eq modelInUse_after_load)
next
  let ?c = "(cache w)\<lparr>costOptimization := Some (modelInUse ld (cache w))\<rparr>"
  let ?J = "\<lambda>u. calls u = calls w \<and> cache u = cache w \<or> cache u = ?c"
  assume a: "mn \<le> mx \<and> findOptimalProductionVolume ld mn mx st w = Some (r, w')"
  have step: "?J u'" if "?J u" "predictManufacturingCost ld v u = (out, u')" for u v out u'
  proof -
    have "cache u' = (cache u)\<lparr>costOptimization := Some (modelInUse ld (cache u))\<rparr>"
      using that(2) by (auto simp add: predictManufacturingCost_eq load_populates)
    moreover have "(cache u)\<lparr>costOptimization := Some (modelInUse ld (cache u))\<rparr> = ?c"
      using that(1) by (auto simp add: modelInUse_simps)
    ultimately show ?thesis by simp
  qed
  have q: "case r of Inl e \<Rightarrow> ?J w'
    | Inr res \<Rightarrow> \<exists>s::search. ?J w' \<and>
        res = \<lparr>volume = round (bestVolume s), cost = mathRound (lowestCost s)\<rparr>"
  proof (rule find_result_rule [where J = "\<lambda>s::search. ?J" and E = "\<lambda>e. ?J"])
    show "findOptimalProductionVolume ld mn mx st w = Some (r, w')" using a by simp
  next
    show "?J w" by simp
  next
    fix v s u c u'
    assume "?J u" "predictManufacturingCost ld v u = (Inr c, u')"
    then have "?J u'" by (rule step)
    then show "?J (observe (improve v c s) u')"
      by (simp add: observe_simps)
  next
    fix v s u e u'
    assume "?J u" "predictManufacturingCost ld v u = (Inl e, u')"
    then show "?J u'" by (rule step)
  qed
  have "?J w'"
    using q by (cases r) auto
  moreover have "calls w' \<noteq> calls w"
    using find_calls_grow [of ld mn mx st w r w'] a by auto
  ultimately have c: "cache w' = ?c" by simp
  then have m: "modelInUse ld' (cache w') = modelInUse ld (cache w)"
    by (simp add: modelInUse_simps)
  show "cache w' = ?c" by (rule c)
  show "demandForecast (cache w') = demandForecast (cache w)" using c by simp
  show "modelInUse ld' (cache w') = modelInUse ld (cache w)" by (rule m)
qed

theorem search_cache_effect_witness:
  "(500::real) \<le> 500 \<and>
   (\<exists>r w'. findOptimalProductionVolume (Inl (Error ''Failed to fetch'')) 500 500 100
        initialWorld = Some (r, w') \<and>
      cache w' = initialCache\<lparr>costOptimization := Some createFallbackModel\<rparr> \<and>
      demandForecast (cache w') = None \<and>
      modelInUse (Inr (Model (\<lambda>x. Inr 0))) (cache w') = createFallbackModel)"
proof -
  have "\<exists>r w'. findOptimalProductionVolume (Inl (Error ''Failed to fetch'')) 500 500 100
      initialWorld = Some (r, w')"
    by (simp add: run_simps)
  then obtain r w' where run: "findOptimalProductionVolume (Inl (Error ''Failed to fetch''))
      500 500 100 initialWorld = Some (r, w')"
    by blast
  from search_cache_effect [of "Inl (Error ''Failed to fetch'')" 0 initialWorld
      "Inr (Model (\<lambda>x. Inr 0))" 500 500 100 r w'] run
  show ?thesis
    by (auto simp add: modelInUse_simps initialWorld_def initialCache_def)
qed

theorem search_mutates_shared_cache:
  "\<exists>r w'. findOptimalProductionVolume (Inl (Error ''Failed to fetch'')) 500 500 100
       initialWorld = Some (r, w') \<and>
     cache initialWorld = \<lparr>costOptimization = None, demandForecast = None\<rparr> \<and>
     cache w' = \<lparr>costOptimization = Some createFallbackModel, demandForecast = None\<rparr> \<and>
     modelInUse (Inr (Model (\<lambda>x. Inr 0))) (cache initialWorld) = Model (\<lambda>x. Inr 0) \<and>
     modelInUse (Inr (Model (\<lambda>x. Inr 0))) (cache w') = createFallbackModel \<and>
     fst (predictManufacturingCost (Inr (Model (\<lambda>x. Inr 0))) 5050 initialWorld) \<noteq>
       fst (predictManufacturingCost (Inr (Model (\<lambda>x. Inr 0))) 5050 w')"
proof -
  have "evaluate (Model (\<lambda>x. Inr 0)) v = Inr 5000" for v
    by (simp add: evaluate_def denormalizeCost_def)
  then show ?thesis
    by (simp add: run_simps)
qed

section \<open>The demand heuristic\<close>

lemma rd_bound:
  assumes "roundsToDouble rd"
  shows "\<bar>rd x\<bar> \<le> 9 / 8 * \<bar>x\<bar> + 1"
proof -
  have "\<bar>rd x - x\<bar> \<le> \<bar>x\<bar> / 2 ^ 53 + 1 / 2 ^ 1075"
    using assms by (simp add: roundsToDouble_def)
  moreover have "\<bar>x\<bar> / 2 ^ 53 \<le> \<bar>x\<bar> / 8"
    by (intro divide_left_mono) simp_all
  moreover have "(1::real) / 2 ^ 1075 \<le> 1"
    by simp
  ultimately show ?thesis by linarith
qed

lemma deliver_bounded:
  assumes "roundsToDouble rd" and "\<bar>x\<bar> \<le> a" and "9 / 8 * a + 1 \<le> c" and "c \<le> maxDouble"
  shows "bounded_by c (deliver rd maxDouble x)"
proof -
  have "\<bar>rd x\<bar> \<le> c"
    using rd_bound [OF assms(1), of x] assms(2,3) by linarith
  then show ?thesis
    using assms(4) by (auto simp add: bounded_by_def deliver_def Let_def)
qed

lemma Fin_bounded: "\<bar>x\<bar> \<le> b \<Longrightarrow> bounded_by b (Fin x)"
  by (simp add: bounded_by_def)

lemma lit_bounded:
  assumes "roundsToDouble rd" and "9 / 8 * \<bar>c\<bar> + 1 \<le> b"
  shows "bounded_by b (lit rd c)"
  using rd_bound [OF assms(1), of c] assms(2) by (simp add: bounded_by_def lit_def)

lemma fadd_bounded:
  assumes "roundsToDouble rd" and "bounded_by a x" and "bounded_by b y"
    and "9 / 8 * (a + b) + 1 \<le> c" and "c \<le> maxDouble"
  shows "bounded_by c (fadd rd x y)"
proof -
  obtain u v where uv: "x = Fin u" "\<bar>u\<bar> \<le> a" "y = Fin v" "\<bar>v\<bar> \<le> b"
    using assms(2,3) by (auto simp add: bounded_by_def)
  have "\<bar>u + v\<bar> \<le> a + b" using uv by linarith
  then show ?thesis
    using deliver_bounded [OF assms(1) _ assms(4,5)] uv by simp
qed

lemma fsub_bounded:
  assumes "roundsToDouble rd" and "bounded_by a x" and "bounded_by b y"
    and "9 / 8 * (a + b) + 1 \<le> c" and "c \<le> maxDouble"
  shows "bounded_by c (fsub rd x y)"
proof -
  have "bounded_by b (fneg y)"
    using assms(3) by (auto simp add: bounded_by_def)
  then show ?thesis
    unfolding fsub_def using assms by (intro fadd_bounded)
qed

lemma fmul_bounded:
  assumes "roundsToDouble rd" and "bounded_by a x" and "bounded_by b y"
    and "9 / 8 * (a * b) + 1 \<le> c" and "c \<le> maxDouble"
  shows "bounded_by c (fmul rd x y)"
proof -
  obtain u v where uv: "x = Fin u" "\<bar>u\<bar> \<le> a" "y = Fin v" "\<bar>v\<bar> \<le> b"
    using assms(2,3) by (auto simp add: bounded_by_def)
  have "\<bar>u * v\<bar> \<le> a * b"
    unfolding abs_mult using uv by (intro mult_mono) simp_all
  then show ?thesis
    using deliver_bounded [OF assms(1) _ assms(4,5)] uv by simp
qed

lemma fdiv_bounded:
  assumes "roundsToDouble rd" and "bounded_by a x" and "0 < d"
    and "9 / 8 * (a / d) + 1 \<le> c" and "c \<le> maxDouble"
  shows "bounded_by c (fdiv rd x (Fin d))"
proof -
  obtain u where u: "x = Fin u" "\<bar>u\<bar> \<le> a"
    using assms(2) by (auto simp add: bounded_by_def)
  have "\<bar>u / d\<bar> \<le> a / d"
    using u assms(3) by (simp add: divide_right_mono)
  then show ?thesis
    using deliver_bounded [OF assms(1) _ assms(4,5)] u assms(3) by simp
qed

lemma term_bounded:
  assumes r: "roundsToDouble rd" and x: "bounded_by m x" and k: "\<bar>k\<bar> \<le> 100" and d: "5 \<le> d"
    and w: "bounded_by 5 w" and m: "1000 \<le> m" "6 * m \<le> maxDouble"
  shows "bounded_by (6 * m) (fmul rd (fdiv rd (fsub rd x (Fin k)) (Fin d)) w)"
proof -
  have 1: "bounded_by (2 * m) (fsub rd x (Fin k))"
    using r x Fin_bounded [OF k]
  proof (rule fsub_bounded)
    show "9 / 8 * (m + 100) + 1 \<le> 2 * m" using m by argo
    show "2 * m \<le> maxDouble" using m by linarith
  qed
  define q where "q = 2 * m / d"
  have "q \<le> 2 * m / 5"
    unfolding q_def using d m by (intro divide_left_mono) simp_all
  then have q: "9 / 8 * q + 1 \<le> m"
    using m by argo
  have 2: "bounded_by m (fdiv rd (fsub rd x (Fin k)) (Fin d))"
    using r 1
  proof (rule fdiv_bounded)
    show "0 < d" using d by simp
    show "9 / 8 * (2 * m / d) + 1 \<le> m" using q by (simp add: q_def)
    show "m \<le> maxDouble" using m by linarith
  qed
  show ?thesis
    using r 2 w
  proof (rule fmul_bounded)
    show "9 / 8 * (m * 5) + 1 \<le> 6 * m" using m by argo
    show "6 * m \<le> maxDouble" by fact
  qed
qed

lemma scaled_bounded:
  assumes r: "roundsToDouble rd" and x: "bounded_by b x" and g: "0 \<le> g" "g \<le> 4 / 5"
    and b: "1000 \<le> b" "9 / 4 * b + 1 \<le> c" "c \<le> maxDouble"
  shows "bounded_by c (if t then fmul rd x (lit rd g) else x)"
proof (cases t)
  case True
  have "9 / 8 * g + 1 \<le> 2" using g by argo
  then have "9 / 8 * \<bar>g\<bar> + 1 \<le> 2" using g by simp
  then have l: "bounded_by 2 (lit rd g)"
    using r by (intro lit_bounded)
  have "bounded_by c (fmul rd x (lit rd g))"
    using r x l
  proof (rule fmul_bounded)
    show "9 / 8 * (b * 2) + 1 \<le> c" using b by argo
    show "c \<le> maxDouble" by fact
  qed
  then show ?thesis using True by simp
next
  case False
  have "b \<le> c" using b by argo
  then show ?thesis
    using False x by (auto simp add: bounded_by_def)
qed

text \<open>
  On finite numbers of magnitude at most \<open>10^300\<close> no operation of \<open>predictDemand\<close>
  overflows, whatever the rounding.
\<close>

lemma predictDemand_any_rounding:
  assumes r: "roundsToDouble rd"
    and f: "bounded_by (10 ^ 300) (price f)" "bounded_by (10 ^ 300) (availability f)"
      "bounded_by (10 ^ 300) (stockLevels f)" "bounded_by (10 ^ 300) (leadTimes f)"
      "bounded_by (10 ^ 300) (orderQuantities f)"
  shows "\<exists>y n. demandPrediction rd f = Fin y \<and> n = max 0 (round y) \<and>
           predictDemand rd f = Fin (of_int n) \<and> 0 \<le> n"
proof -
  define m :: real where "m = 10 ^ 300"
  have m: "1000 \<le> m" by (simp add: m_def)
  have top: "100000 * m \<le> maxDouble" by (simp add: m_def maxDouble_def)
  have w: "bounded_by 5 (Fin (- 3.5))" "bounded_by 5 (lit rd 2.8)" "bounded_by 5 (lit rd 1.2)"
    "bounded_by 5 (Fin (- 2.0))" "bounded_by 5 (lit rd 0.8)"
    using r by (simp_all add: Fin_bounded lit_bounded)
  have six: "6 * m \<le> maxDouble" using top m by linarith
  let ?t1 = "fmul rd (fdiv rd (fsub rd (price f) (Fin 50)) (Fin 10)) (Fin (- 3.5))"
  let ?t2 = "fmul rd (fdiv rd (fsub rd (availability f) (Fin 75)) (Fin 25)) (lit rd 2.8)"
  let ?t3 = "fmul rd (fdiv rd (fsub rd (stockLevels f) (Fin 60)) (Fin 40)) (lit rd 1.2)"
  let ?t4 = "fmul rd (fdiv rd (fsub rd (leadTimes f) (Fin 7)) (Fin 5)) (Fin (- 2.0))"
  let ?t5 = "fmul rd (fdiv rd (fsub rd (orderQuantities f) (Fin 30)) (Fin 20)) (lit rd 0.8)"
  have t: "bounded_by (6 * m) ?t1" "bounded_by (6 * m) ?t2" "bounded_by (6 * m) ?t3"
    "bounded_by (6 * m) ?t4" "bounded_by (6 * m) ?t5"
    using f w m six r unfolding m_def [symmetric] by (simp_all add: term_bounded)
  let ?w1 = "fadd rd (Fin 0) ?t1"
  let ?w2 = "fadd rd ?w1 ?t2"
  let ?w3 = "fadd rd ?w2 ?t3"
  let ?w4 = "fadd rd ?w3 ?t4"
  let ?w5 = "fadd rd ?w4 ?t5"
  have c: "bounded_by 0 (Fin 0)" "bounded_by 120 (Fin 120)" "bounded_by 850 (Fin 850)"
    by (simp_all add: Fin_bounded)
  have w1: "bounded_by (7 * m) ?w1"
    using m top by (intro fadd_bounded [OF r c(1) t(1)]) argo+
  have w2: "bounded_by (15 * m) ?w2"
    using m top by (intro fadd_bounded [OF r w1 t(2)]) argo+
  have w3: "bounded_by (24 * m) ?w3"
    using m top by (intro fadd_bounded [OF r w2 t(3)]) argo+
  have w4: "bounded_by (34 * m) ?w4"
    using m top by (intro fadd_bounded [OF r w3 t(4)]) argo+
  have w5: "bounded_by (46 * m) ?w5"
    using m top by (intro fadd_bounded [OF r w4 t(5)]) argo+
  let ?p0 = "fadd rd (Fin 850) (fmul rd ?w5 (Fin 120))"
  have mul: "bounded_by (6211 * m) (fmul rd ?w5 (Fin 120))"
    using m top by (intro fmul_bounded [OF r w5 c(2)]) argo+
  have p0: "bounded_by (7000 * m) ?p0"
    using m top by (intro fadd_bounded [OF r c(3) mul]) argo+
  let ?p1 = "if fless (Fin 100) (price f) then fmul rd ?p0 (lit rd 0.7) else ?p0"
  let ?p2 = "if fless (availability f) (Fin 30) then fmul rd ?p1 (lit rd 0.6) else ?p1"
  let ?p3 = "if fless (Fin 14) (leadTimes f) then fmul rd ?p2 (lit rd 0.8) else ?p2"
  have p1: "bounded_by (16000 * m) ?p1"
    using m top by (intro scaled_bounded [OF r p0]) argo+
  have p2: "bounded_by (37000 * m) ?p2"
    using m top by (intro scaled_bounded [OF r p1]) argo+
  have p3: "bounded_by (84000 * m) ?p3"
    using m top by (intro scaled_bounded [OF r p2]) argo+
  then obtain y where y: "?p3 = Fin y"
    by (auto simp add: bounded_by_def)
  have "demandPrediction rd f = ?p3"
    by (simp add: demandPrediction_def Let_def)
  then have d: "demandPrediction rd f = Fin y"
    using y by simp
  have "predictDemand rd f = mathMax0 (mathRoundD ?p3)"
    by (simp add: predictDemand_def Let_def)
  then have "predictDemand rd f = Fin (of_int (max 0 (round y)))"
    using y by simp
  with d show ?thesis
    by simp
qed

section \<open>The fallback cost in machine arithmetic\<close>

text \<open>The error of one rounding, with decimal constants.\<close>

lemma double_error:
  assumes "roundsToDouble rd"
  shows "\<bar>rd x - x\<bar> \<le> \<bar>x\<bar> / 10 ^ 15 + 1 / 10 ^ 20"
proof -
  have "\<bar>rd x - x\<bar> \<le> \<bar>x\<bar> / 2 ^ 53 + 1 / 2 ^ 1075"
    using assms by (simp add: roundsToDouble_def)
  moreover have "\<bar>x\<bar> / 2 ^ 53 \<le> \<bar>x\<bar> / 10 ^ 15"
    by (intro divide_left_mono) simp_all
  moreover have "(1::real) / 2 ^ 1075 \<le> 1 / 10 ^ 20"
    by simp
  ultimately show ?thesis by linarith
qed

lemma float32_error:
  assumes "roundsToFloat32 rf"
  shows "\<bar>rf x - x\<bar> \<le> \<bar>x\<bar> / 16000000 + 1 / 10 ^ 20"
proof -
  have "\<bar>rf x - x\<bar> \<le> \<bar>x\<bar> / 2 ^ 24 + 1 / 2 ^ 150"
    using assms by (simp add: roundsToFloat32_def)
  moreover have "\<bar>x\<bar> / 2 ^ 24 \<le> \<bar>x\<bar> / 16000000"
    by (intro divide_left_mono) simp_all
  moreover have "(1::real) / 2 ^ 150 \<le> 1 / 10 ^ 20"
    by simp
  ultimately show ?thesis by linarith
qed

text \<open>
  An operation whose exact result \<open>x\<close> is within \<open>b\<close> of \<open>t\<close>, where \<open>t\<close> is at most \<open>T\<close>
  in magnitude, delivers a finite number within \<open>c\<close> of \<open>t\<close>.
\<close>

lemma deliver_approx:
  assumes r: "roundsToDouble rd" and x: "\<bar>x - t\<bar> \<le> b" and t: "\<bar>t\<bar> \<le> T"
    and c: "b + (T + b) / 10 ^ 15 + 1 / 10 ^ 20 \<le> c" and top: "T + c \<le> 10 ^ 300"
  shows "approx t c (deliver rd maxDouble x)"
proof -
  have "\<bar>x\<bar> \<le> T + b" using x t by linarith
  then have "\<bar>x\<bar> / 10 ^ 15 \<le> (T + b) / 10 ^ 15"
    by (intro divide_right_mono) simp_all
  then have e: "\<bar>rd x - t\<bar> \<le> c"
    using double_error [OF r, of x] x c by linarith
  then have "\<bar>rd x\<bar> \<le> T + c" using t by linarith
  moreover have "(10::real) ^ 300 \<le> maxDouble" by (simp add: maxDouble_def)
  ultimately have "\<bar>rd x\<bar> \<le> maxDouble" using top by linarith
  then show ?thesis
    using e by (auto simp add: approx_def deliver_def Let_def)
qed

lemma toFloat32_approx:
  assumes r: "roundsToFloat32 rf" and a: "approx t b a" and t: "\<bar>t\<bar> \<le> T"
    and c: "b + (T + b) / 16000000 + 1 / 10 ^ 20 \<le> c" and top: "T + c \<le> 10 ^ 30"
  shows "approx t c (toFloat32 rf a)"
proof -
  obtain x where x: "a = Fin x" "\<bar>x - t\<bar> \<le> b"
    using a by (auto simp add: approx_def)
  have "\<bar>x\<bar> \<le> T + b" using x t by linarith
  then have "\<bar>x\<bar> / 16000000 \<le> (T + b) / 16000000"
    by (intro divide_right_mono) simp_all
  then have e: "\<bar>rf x - t\<bar> \<le> c"
    using float32_error [OF r, of x] x c by linarith
  then have "\<bar>rf x\<bar> \<le> T + c" using t by linarith
  moreover have "(10::real) ^ 30 \<le> maxFloat32" by (simp add: maxFloat32_def)
  ultimately have "\<bar>rf x\<bar> \<le> maxFloat32" using top by linarith
  then show ?thesis
    using e x by (auto simp add: approx_def deliver_def Let_def)
qed

lemma Fin_approx: "approx x 0 (Fin x)"
  by (simp add: approx_def)

lemma fadd_approx:
  assumes r: "roundsToDouble rd" and a: "approx t b a" and t: "\<bar>t + k\<bar> \<le> T"
    and c: "b + (T + b) / 10 ^ 15 + 1 / 10 ^ 20 \<le> c" and top: "T + c \<le> 10 ^ 300"
  shows "approx (t + k) c (fadd rd a (Fin k))"
proof -
  obtain y where y: "a = Fin y" "\<bar>y - t\<bar> \<le> b"
    using a by (auto simp add: approx_def)
  have "\<bar>(y + k) - (t + k)\<bar> \<le> b" using y by simp
  then have "approx (t + k) c (deliver rd maxDouble (y + k))"
    using r t c top by (intro deliver_approx [where b = b and T = T])
  then show ?thesis using y by simp
qed

lemma fsub_approx:
  assumes r: "roundsToDouble rd" and a: "approx t b a" and t: "\<bar>t - k\<bar> \<le> T"
    and c: "b + (T + b) / 10 ^ 15 + 1 / 10 ^ 20 \<le> c" and top: "T + c \<le> 10 ^ 300"
  shows "approx (t - k) c (fsub rd a (Fin k))"
  using fadd_approx [OF r a, of "- k" T c] t c top by (simp add: fsub_def)

lemma fmul_approx:
  assumes r: "roundsToDouble rd" and a: "approx t b a" and k: "0 \<le> k" and t: "\<bar>t * k\<bar> \<le> T"
    and c: "b * k + (T + b * k) / 10 ^ 15 + 1 / 10 ^ 20 \<le> c" and top: "T + c \<le> 10 ^ 300"
  shows "approx (t * k) c (fmul rd a (Fin k))"
proof -
  obtain y where y: "a = Fin y" "\<bar>y - t\<bar> \<le> b"
    using a by (auto simp add: approx_def)
  have "\<bar>y * k - t * k\<bar> = \<bar>y - t\<bar> * k"
    using k by (simp add: abs_mult flip: left_diff_distrib)
  also have "\<dots> \<le> b * k"
    using y k by (intro mult_right_mono)
  finally have "approx (t * k) c (deliver rd maxDouble (y * k))"
    using r t c top by (intro deliver_approx [where b = "b * k" and T = T])
  then show ?thesis using y by simp
qed

lemma fdiv_approx:
  assumes r: "roundsToDouble rd" and a: "approx t b a" and k: "0 < k" and t: "\<bar>t / k\<bar> \<le> T"
    and c: "b / k + (T + b / k) / 10 ^ 15 + 1 / 10 ^ 20 \<le> c" and top: "T + c \<le> 10 ^ 300"
  shows "approx (t / k) c (fdiv rd a (Fin k))"
proof -
  obtain y where y: "a = Fin y" "\<bar>y - t\<bar> \<le> b"
    using a by (auto simp add: approx_def)
  have "\<bar>y / k - t / k\<bar> = \<bar>y - t\<bar> / k"
    using k by (simp flip: diff_divide_distrib)
  also have "\<dots> \<le> b / k"
    using y k by (intro divide_right_mono) simp_all
  finally have "approx (t / k) c (deliver rd maxDouble (y / k))"
    using r t c top by (intro deliver_approx [where b = "b / k" and T = T])
  then show ?thesis using y k by simp
qed

lemma mathPow2_approx:
  assumes r: "roundsToDouble rd" and a: "approx t b a" and s: "\<bar>t\<bar> \<le> S" and t: "S * S \<le> T"
    and c: "b * (2 * S + b) + (T + b * (2 * S + b)) / 10 ^ 15 + 1 / 10 ^ 20 \<le> c"
    and top: "T + c \<le> 10 ^ 300"
  shows "approx (t * t) c (mathPow2 rd a)"
proof -
  obtain y where y: "a = Fin y" "\<bar>y - t\<bar> \<le> b"
    using a by (auto simp add: approx_def)
  have b: "0 \<le> b" using y by linarith
  have "\<bar>y + t\<bar> \<le> 2 * S + b" using y s by linarith
  then have "\<bar>y - t\<bar> * \<bar>y + t\<bar> \<le> b * (2 * S + b)"
    using y b by (intro mult_mono) simp_all
  moreover have "y * y - t * t = (y - t) * (y + t)"
    by (simp add: algebra_simps)
  ultimately have 1: "\<bar>y * y - t * t\<bar> \<le> b * (2 * S + b)"
    by (simp add: abs_mult)
  have "\<bar>t\<bar> * \<bar>t\<bar> \<le> S * S"
    using s by (intro mult_mono) simp_all
  then have 2: "\<bar>t * t\<bar> \<le> T"
    using t by (simp add: abs_mult)
  have "approx (t * t) c (deliver rd maxDouble (y * y))"
    using r 1 2 c top by (rule deliver_approx)
  then show ?thesis using y by (simp add: mathPow2_def)
qed

lemma double_int:
  assumes "roundsToDouble rd" and "\<bar>k\<bar> < 2 ^ 53"
  shows "rd (of_int k) = of_int k"
  using assms by (simp add: roundsToDouble_def)

lemma scaling_ranges:
  assumes "roundsToDouble rd"
  shows "fsub rd (Fin 10000) (Fin 100) = Fin 9900" and "fsub rd (Fin 100000) (Fin 5000) = Fin 95000"
  using double_int [OF assms, of 9900] double_int [OF assms, of 95000]
  by (simp_all add: fsub_def deliver_def maxDouble_def)

text \<open>
  The error of the whole computation, whatever the rounding: 13 rounded operations, two
  of them conversions to 32-bit floats.
\<close>

lemma predictManufacturingCost_any_rounding:
  assumes rd: "roundsToDouble rd" and rf: "roundsToFloat32 rf" and v: "100 \<le> v" "v \<le> 10000"
  shows "\<exists>z. predictManufacturingCostD rd rf (Fin v) = Fin z \<and>
           \<bar>z - (95 / 100 * specReferenceCost v + 5000)\<bar> \<le> 1 / 20 \<and>
           14500 \<le> 95 / 100 * specReferenceCost v + 5000 \<and>
           (95 / 100 * specReferenceCost v + 5000 = 14500 \<longleftrightarrow> v = 5050) \<and>
           14500 - 1 / 20 \<le> z"
proof -
  define t2 where "t2 = (v - 100) / 9900"
  define t5 where "t5 = t2 * 10000 - 5000"
  define t8 where "t8 = 100000 * (t5 * t5) / 25000000"
  define t10 where "t10 = (t8 + 10000) / 100000"
  have b2: "0 \<le> t2" "t2 \<le> 1"
    using v by (simp_all add: t2_def)
  have b5: "\<bar>t5\<bar> \<le> 5000"
    using b2 by (simp add: t5_def abs_le_iff)
  have "\<bar>t5\<bar> * \<bar>t5\<bar> \<le> 5000 * 5000"
    using b5 by (intro mult_mono) simp_all
  then have b6: "0 \<le> t5 * t5" "t5 * t5 \<le> 25000000"
    by (simp_all flip: abs_mult)
  have b8: "0 \<le> t8" "t8 \<le> 100000"
    using b6 by (simp_all add: t8_def)
  have b10: "0 \<le> t10" "t10 \<le> 11 / 10"
    using b8 by (simp_all add: t10_def)
  have 1: "approx (v - 100) (1 / 10 ^ 10) (fsub rd (Fin v) (Fin 100))"
    using rd Fin_approx
  proof (rule fsub_approx)
    show "\<bar>v - 100\<bar> \<le> 9900" using v by simp
  qed simp_all
  have 2: "approx t2 (1 / 10 ^ 13) (normalizeProductionVolumeD rd (Fin v) (Fin 100) (Fin 10000))"
    unfolding normalizeProductionVolumeD_def scaling_ranges [OF rd] t2_def
    using rd 1
  proof (rule fdiv_approx)
    show "\<bar>(v - 100) / 9900\<bar> \<le> 1" using b2 by (simp add: t2_def)
  qed simp_all
  have 3: "approx t2 (7 / 10 ^ 8)
      (toFloat32 rf (normalizeProductionVolumeD rd (Fin v) (Fin 100) (Fin 10000)))"
    using rf 2
  proof (rule toFloat32_approx)
    show "\<bar>t2\<bar> \<le> 1" using b2 by simp
  qed simp_all
  let ?n = "toFloat32 rf (normalizeProductionVolumeD rd (Fin v) (Fin 100) (Fin 10000))"
  have 4: "approx (t2 * 10000) (8 / 10 ^ 4) (fmul rd ?n (Fin 10000))"
    using rd 3
  proof (rule fmul_approx)
    show "\<bar>t2 * 10000\<bar> \<le> 10000" using b2 by simp
  qed simp_all
  have 5: "approx t5 (9 / 10 ^ 4) (fsub rd (fmul rd ?n (Fin 10000)) (Fin 5000))"
    unfolding t5_def using rd 4
  proof (rule fsub_approx)
    show "\<bar>t2 * 10000 - 5000\<bar> \<le> 5000" using b5 by (simp add: t5_def)
  qed simp_all
  let ?d = "fsub rd (fmul rd ?n (Fin 10000)) (Fin 5000)"
  have 6: "approx (t5 * t5) (901 / 100) (mathPow2 rd ?d)"
    using rd 5 b5
  proof (rule mathPow2_approx)
    show "(5000::real) * 5000 \<le> 25000000" by simp
  qed simp_all
  have 7: "approx (t5 * t5 * 100000) 901001 (fmul rd (mathPow2 rd ?d) (Fin 100000))"
    using rd 6
  proof (rule fmul_approx)
    show "\<bar>t5 * t5 * 100000\<bar> \<le> 2500000000000" using b6 by simp
  qed simp_all
  have comm: "fmul rd (Fin 100000) a = fmul rd a (Fin 100000)" for a
    by (cases a) (simp_all add: mult.commute)
  have 8: "approx t8 (361 / 10 ^ 4)
      (fdiv rd (fmul rd (Fin 100000) (mathPow2 rd ?d)) (Fin 25000000))"
  proof -
    have "approx (t5 * t5 * 100000 / 25000000) (361 / 10 ^ 4)
        (fdiv rd (fmul rd (mathPow2 rd ?d) (Fin 100000)) (Fin 25000000))"
      using rd 7
    proof (rule fdiv_approx)
      show "\<bar>t5 * t5 * 100000 / 25000000\<bar> \<le> 100000" using b6 by simp
    qed simp_all
    then show ?thesis by (simp add: comm t8_def mult.commute)
  qed
  let ?q = "fdiv rd (fmul rd (Fin 100000) (mathPow2 rd ?d)) (Fin 25000000)"
  have 9: "approx (t8 + 10000) (362 / 10 ^ 4) (fadd rd ?q (Fin 10000))"
    using rd 8
  proof (rule fadd_approx)
    show "\<bar>t8 + 10000\<bar> \<le> 110000" using b8 by simp
  qed simp_all
  have 10: "approx t10 (363 / 10 ^ 9) (fdiv rd (fadd rd ?q (Fin 10000)) (Fin 100000))"
    unfolding t10_def using rd 9
  proof (rule fdiv_approx)
    show "\<bar>(t8 + 10000) / 100000\<bar> \<le> 11 / 10" using b10 by (simp add: t10_def)
  qed simp_all
  have 11: "approx t10 (432 / 10 ^ 9) (fallbackPredictD rd rf ?n)"
    unfolding fallbackPredictD_def Let_def using rf 10
  proof (rule toFloat32_approx)
    show "\<bar>t10\<bar> \<le> 11 / 10" using b10 by simp
  qed simp_all
  have 12: "approx (t10 * 95000) (411 / 10 ^ 4) (fmul rd (fallbackPredictD rd rf ?n) (Fin 95000))"
    using rd 11
  proof (rule fmul_approx)
    show "\<bar>t10 * 95000\<bar> \<le> 104500" using b10 by simp
  qed simp_all
  have 13: "approx (t10 * 95000 + 5000) (412 / 10 ^ 4) (predictManufacturingCostD rd rf (Fin v))"
    unfolding predictManufacturingCostD_def denormalizeCostD_def Let_def scaling_ranges [OF rd]
    using rd 12
  proof (rule fadd_approx)
    show "\<bar>t10 * 95000 + 5000\<bar> \<le> 109500" using b10 by simp
  qed simp_all
  have ideal: "t10 * 95000 + 5000 = 95 / 100 * specReferenceCost v + 5000"
    by (simp add: t10_def t8_def t5_def t2_def specReferenceCost_def Let_def power2_eq_square)
  have low: "14500 \<le> 95 / 100 * specReferenceCost v + 5000"
    and iff: "95 / 100 * specReferenceCost v + 5000 = 14500 \<longleftrightarrow> v = 5050"
    by (simp_all add: specReferenceCost_closed)
  obtain z where z: "predictManufacturingCostD rd rf (Fin v) = Fin z"
    "\<bar>z - (95 / 100 * specReferenceCost v + 5000)\<bar> \<le> 412 / 10 ^ 4"
    using 13 unfolding ideal by (auto simp add: approx_def)
  have "\<bar>z - (95 / 100 * specReferenceCost v + 5000)\<bar> \<le> 1 / 20"
    using z(2) by simp
  moreover from this have "14500 - 1 / 20 \<le> z"
    using low by linarith
  ultimately show ?thesis
    using z(1) low iff by blast
qed

section \<open>Rounding to nearest\<close>

lemma roundEven_error: "\<bar>of_int (roundEven x) - x\<bar> \<le> 1 / 2"
proof -
  have "of_int \<lfloor>x\<rfloor> \<le> x" "x < of_int \<lfloor>x\<rfloor> + 1"
    by linarith+
  then show ?thesis
    by (auto simp add: roundEven_def Let_def)
qed

lemma roundEven_of_int: "roundEven (of_int k) = k"
  by (simp add: roundEven_def)

lemma ulpExp_range: "e0 \<le> ulpExp p n e0 x \<and> ulpExp p n e0 x \<le> e0 + int n"
proof (induction n arbitrary: e0)
  case 0
  show ?case by simp
next
  case (Suc n)
  from Suc [of "e0 + 1"] show ?case by simp
qed

lemma ulpExp_low:
  "ulpExp p n e0 x = e0 \<or> 2 powi (ulpExp p n e0 x - 1 + int p) \<le> \<bar>x\<bar>"
proof (induction n arbitrary: e0)
  case 0
  show ?case by simp
next
  case (Suc n)
  show ?case
  proof (cases "\<bar>x\<bar> < 2 powi (e0 + int p)")
    case True
    then show ?thesis by simp
  next
    case False
    from Suc [of "e0 + 1"] False show ?thesis
      by auto
  qed
qed

lemma ulpExp_eqI:
  assumes "e0 \<le> e" and "e \<le> e0 + int n"
    and "e = e0 + int n \<or> \<bar>x\<bar> < 2 powi (e + int p)"
    and "e = e0 \<or> 2 powi (e - 1 + int p) \<le> \<bar>x\<bar>"
  shows "ulpExp p n e0 x = e"
  using assms
proof (induction n arbitrary: e0)
  case 0
  then show ?case by simp
next
  case (Suc n)
  show ?case
  proof (cases "\<bar>x\<bar> < 2 powi (e0 + int p)")
    case True
    have "e = e0"
    proof (rule ccontr)
      assume "e \<noteq> e0"
      then have "2 powi (e - 1 + int p) \<le> \<bar>x\<bar>" and "e0 + int p \<le> e - 1 + int p"
        using Suc.prems by simp_all
      moreover from this(2) have "(2::real) powi (e0 + int p) \<le> 2 powi (e - 1 + int p)"
        by (intro power_int_increasing) simp_all
      ultimately show False using True by linarith
    qed
    then show ?thesis using True by simp
  next
    case False
    then have ne: "e \<noteq> e0" using Suc.prems by auto
    have "ulpExp p n (e0 + 1) x = e"
    proof (rule Suc.IH)
      show "e0 + 1 \<le> e" using ne Suc.prems by simp
      show "e \<le> e0 + 1 + int n" using Suc.prems by simp
      show "e = e0 + 1 + int n \<or> \<bar>x\<bar> < 2 powi (e + int p)" using Suc.prems by auto
      show "e = e0 + 1 \<or> 2 powi (e - 1 + int p) \<le> \<bar>x\<bar>" using ne Suc.prems by auto
    qed
    then show ?thesis using False by simp
  qed
qed

lemma roundTo_eqI:
  assumes "emin \<le> e" and "e \<le> emin + int n"
    and "e = emin + int n \<or> \<bar>x\<bar> < 2 powi (e + int p)"
    and "e = emin \<or> 2 powi (e - 1 + int p) \<le> \<bar>x\<bar>"
    and "roundEven (x / 2 powi e) = m"
  shows "roundTo p emin n x = of_int m * 2 powi e"
  using ulpExp_eqI [OF assms(1-4)] assms(5) by (simp add: roundTo_def Let_def)

lemma roundTo_error:
  "\<bar>roundTo p emin n x - x\<bar> \<le> \<bar>x\<bar> / 2 ^ p + 2 powi (emin - 1)"
proof -
  define e where "e = ulpExp p n emin x"
  define q :: real where "q = 2 powi e"
  have q: "0 < q" by (simp add: q_def)
  have "roundTo p emin n x - x = (of_int (roundEven (x / q)) - x / q) * q"
    using q by (simp add: roundTo_def Let_def e_def q_def algebra_simps)
  then have "\<bar>roundTo p emin n x - x\<bar> = \<bar>of_int (roundEven (x / q)) - x / q\<bar> * q"
    using q by (simp add: abs_mult)
  also have "\<dots> \<le> 1 / 2 * q"
    using q roundEven_error [of "x / q"] by (intro mult_right_mono) simp_all
  finally have err: "\<bar>roundTo p emin n x - x\<bar> \<le> q / 2"
    by simp
  have half: "q / 2 = 2 powi (e - 1)"
    by (simp add: q_def power_int_diff)
  consider "e = emin" | "2 powi (e - 1 + int p) \<le> \<bar>x\<bar>"
    using ulpExp_low [of p n emin x] by (auto simp add: e_def)
  then have "q / 2 \<le> \<bar>x\<bar> / 2 ^ p + 2 powi (emin - 1)"
  proof cases
    case 1
    then show ?thesis by (simp add: half)
  next
    case 2
    have "(2::real) powi (e - 1 + int p) = 2 powi (e - 1) * 2 ^ p"
      by (simp add: power_int_add)
    then have "2 powi (e - 1) \<le> \<bar>x\<bar> / 2 ^ p"
      using 2 by (simp add: pos_le_divide_eq)
    moreover have "(0::real) \<le> 2 powi (emin - 1)" by simp
    ultimately show ?thesis unfolding half by linarith
  qed
  then show ?thesis using err by linarith
qed

lemma ulpExp_le:
  assumes "e0 \<le> e1" and "\<bar>x\<bar> < 2 powi (e1 + int p)"
  shows "ulpExp p n e0 x \<le> e1"
  using assms
proof (induction n arbitrary: e0)
  case 0
  then show ?case by simp
next
  case (Suc n)
  show ?case
  proof (cases "\<bar>x\<bar> < 2 powi (e0 + int p)")
    case True
    then show ?thesis using Suc.prems by simp
  next
    case False
    then have "e0 \<noteq> e1" using Suc.prems by auto
    then have "e0 + 1 \<le> e1" using Suc.prems by simp
    from Suc.IH [OF this Suc.prems(2)] False show ?thesis by simp
  qed
qed

text \<open>A number of the format is rounded to itself.\<close>

lemma roundTo_exact:
  assumes "\<bar>m\<bar> < 2 ^ p" and "emin \<le> e"
  shows "roundTo p emin n (of_int m * 2 powi e) = of_int m * 2 powi e"
proof -
  define x :: real where "x = of_int m * 2 powi e"
  define e' where "e' = ulpExp p n emin x"
  have "\<bar>of_int m :: real\<bar> < 2 ^ p"
    using assms(1) by (simp flip: of_int_abs)
  then have "\<bar>x\<bar> < 2 ^ p * 2 powi e"
    by (simp add: x_def abs_mult)
  also have "\<dots> = 2 powi (e + int p)"
    by (simp add: power_int_add)
  finally have "e' \<le> e"
    unfolding e'_def using assms(2) by (intro ulpExp_le)
  then obtain j where j: "e = e' + int j"
    by (metis zle_iff_zadd)
  have split: "(2::real) powi e = 2 powi e' * 2 ^ j"
    by (simp add: j power_int_add)
  then have "x / 2 powi e' = (of_int (m * 2 ^ j) :: real)"
    by (simp add: x_def)
  then have "roundEven (x / 2 powi e') = m * 2 ^ j"
    by (simp only: roundEven_of_int)
  then have "roundTo p emin n x = of_int (m * 2 ^ j) * 2 powi e'"
    by (simp add: roundTo_def Let_def e'_def [symmetric])
  then show ?thesis
    using split by (simp add: x_def)
qed

text \<open>The two roundings of the code have the error bounds of their formats.\<close>

lemma binary64_rounds: "roundsToDouble binary64"
  unfolding roundsToDouble_def binary64_def
proof (intro conjI allI impI)
  fix x :: real
  show "\<bar>roundTo 53 (- 1074) 2045 x - x\<bar> \<le> \<bar>x\<bar> / 2 ^ 53 + 1 / 2 ^ 1075"
    using roundTo_error [of 53 "- 1074" 2045 x] by (simp add: power_int_minus_divide)
next
  fix k :: int
  assume "\<bar>k\<bar> < 2 ^ 53"
  then show "roundTo 53 (- 1074) 2045 (of_int k) = of_int k"
    using roundTo_exact [of k 53 "- 1074" 0 2045] by simp
qed

lemma binary32_rounds: "roundsToFloat32 binary32"
  unfolding roundsToFloat32_def binary32_def
proof
  fix x :: real
  show "\<bar>roundTo 24 (- 149) 253 x - x\<bar> \<le> \<bar>x\<bar> / 2 ^ 24 + 1 / 2 ^ 150"
    using roundTo_error [of 24 "- 149" 253 x] by (simp add: power_int_minus_divide)
qed

text \<open>How the rounding of a given number is computed, and checked.\<close>

lemma binary64_eqI:
  assumes "- 1074 \<le> e" and "e \<le> 971"
    and "e = 971 \<or> \<bar>x\<bar> < 2 powi (e + 53)"
    and "e = - 1074 \<or> 2 powi (e + 52) \<le> \<bar>x\<bar>"
    and "roundEven (x / 2 powi e) = m" and "y = of_int m * 2 powi e"
  shows "binary64 x = y"
proof -
  have "roundTo 53 (- 1074) 2045 x = of_int m * 2 powi e"
    using assms(1-5) by (intro roundTo_eqI) (simp_all add: add.commute)
  then show ?thesis using assms(6) by (simp add: binary64_def)
qed

lemma binary32_eqI:
  assumes "- 149 \<le> e" and "e \<le> 104"
    and "e = 104 \<or> \<bar>x\<bar> < 2 powi (e + 24)"
    and "e = - 149 \<or> 2 powi (e + 23) \<le> \<bar>x\<bar>"
    and "roundEven (x / 2 powi e) = m" and "y = of_int m * 2 powi e"
  shows "binary32 x = y"
proof -
  have "roundTo 24 (- 149) 253 x = of_int m * 2 powi e"
    using assms(1-5) by (intro roundTo_eqI) (simp_all add: add.commute)
  then show ?thesis using assms(6) by (simp add: binary32_def)
qed

lemma binary64_exact:
  "\<bar>m\<bar> < 2 ^ 53 \<Longrightarrow> - 1074 \<le> e \<Longrightarrow> binary64 (of_int m * 2 powi e) = of_int m * 2 powi e"
  unfolding binary64_def by (rule roundTo_exact)

lemma binary32_exact:
  "\<bar>m\<bar> < 2 ^ 24 \<Longrightarrow> - 149 \<le> e \<Longrightarrow> binary32 (of_int m * 2 powi e) = of_int m * 2 powi e"
  unfolding binary32_def by (rule roundTo_exact)

text \<open>The same for the number an operation on doubles delivers.\<close>

lemma deliver_binary64:
  assumes "- 1074 \<le> e" and "e \<le> 971"
    and "e = 971 \<or> \<bar>x\<bar> < 2 powi (e + 53)"
    and "e = - 1074 \<or> 2 powi (e + 52) \<le> \<bar>x\<bar>"
    and "roundEven (x / 2 powi e) = m" and "y = of_int m * 2 powi e"
  shows "\<bar>y\<bar> \<le> maxDouble \<Longrightarrow> deliver binary64 maxDouble x = Fin y"
    and "maxDouble < y \<Longrightarrow> deliver binary64 maxDouble x = PInf"
  using binary64_eqI [OF assms] by (auto simp add: deliver_def)

section \<open>The numbers the code computes\<close>

text \<open>
  C3 (as amended). For every volume of the range 100..10000 the code normalizes,
  \<open>predictManufacturingCost\<close> with the fallback model returns a finite number within 0.05
  of the reference parabola passed through \<open>denormalizeCost\<close>, that is of 0.95 times
  the parabola plus 5000. That value is at least 14500, and is 14500 at volume 5050 only,
  so what the code returns is nowhere in the range below 14499.95.
\<close>

theorem predictManufacturingCost_fallback:
  assumes "100 \<le> v" and "v \<le> 10000"
  shows "\<exists>z. predictManufacturingCostD binary64 binary32 (Fin v) = Fin z \<and>
           \<bar>z - (95 / 100 * specReferenceCost v + 5000)\<bar> \<le> 1 / 20 \<and>
           14500 \<le> 95 / 100 * specReferenceCost v + 5000 \<and>
           (95 / 100 * specReferenceCost v + 5000 = 14500 \<longleftrightarrow> v = 5050) \<and>
           14500 - 1 / 20 \<le> z"
  using binary64_rounds binary32_rounds assms by (rule predictManufacturingCost_any_rounding)

theorem predictManufacturingCost_fallback_witness:
  "(100::real) \<le> 5050 \<and> (5050::real) \<le> 10000 \<and>
   (\<exists>z. predictManufacturingCostD binary64 binary32 (Fin 5050) = Fin z \<and>
      \<bar>z - 14500\<bar> \<le> 1 / 20 \<and> 14500 - 1 / 20 \<le> z)"
  using predictManufacturingCost_fallback [of 5050] by (simp add: specReferenceCost_closed)

text \<open>
  At volume 5050 the parabola is 10000 and the code returns 14500.000141561031: the
  normalized cost 0.1 has become the 32-bit float 0.10000000149011612.
\<close>

theorem predictManufacturingCost_not_parabola:
  "predictManufacturingCostD binary64 binary32 (Fin 5050) = Fin (243269634375 / 16777216) \<and>
   specReferenceCost 5050 = 10000 \<and>
   predictManufacturingCostD binary64 binary32 (Fin 5050) \<noteq> Fin (specReferenceCost 5050)"
proof -
  have int: "binary64 0 = 0" "binary64 4950 = 4950" "binary64 5000 = 5000" "binary64 9900 = 9900"
    "binary64 10000 = 10000" "binary64 95000 = 95000"
    using binary64_exact [of 0 0] binary64_exact [of 4950 0] binary64_exact [of 5000 0]
      binary64_exact [of 9900 0] binary64_exact [of 10000 0] binary64_exact [of 95000 0]
    by simp_all
  have half: "binary64 (1 / 2) = 1 / 2" "binary32 (1 / 2) = 1 / 2"
    using binary64_exact [of 1 "- 1"] binary32_exact [of 1 "- 1"] by simp_all
  have tenth: "binary64 (1 / 10) = 3602879701896397 / 36028797018963968"
    by (rule binary64_eqI [where e = "- 56" and m = 7205759403792794])
      (simp_all add: roundEven_def Let_def)
  have tenth32: "binary32 (3602879701896397 / 36028797018963968) = 13421773 / 134217728"
    by (rule binary32_eqI [where e = "- 27" and m = 13421773])
      (simp_all add: roundEven_def Let_def)
  have scaled: "binary64 (159383554375 / 16777216) = 159383554375 / 16777216"
    "binary64 (243269634375 / 16777216) = 243269634375 / 16777216"
    using binary64_exact [of 159383554375 "- 24"] binary64_exact [of 243269634375 "- 24"]
    by simp_all
  have n: "normalizeProductionVolumeD binary64 (Fin 5050) (Fin 100) (Fin 10000) = Fin (1 / 2)"
    by (simp add: int half normalizeProductionVolumeD_def fsub_def deliver_def maxDouble_def)
  have t: "toFloat32 binary32 (Fin (1 / 2)) = Fin (1 / 2)"
    by (simp add: half deliver_def maxFloat32_def)
  have x: "fsub binary64 (fmul binary64 (Fin (1 / 2)) (Fin 10000)) (Fin 5000) = Fin 0"
    by (simp add: int fsub_def deliver_def maxDouble_def)
  have c: "fadd binary64
      (fdiv binary64 (fmul binary64 (Fin 100000) (mathPow2 binary64 (Fin 0))) (Fin 25000000))
      (Fin 10000) = Fin 10000"
    by (simp add: int mathPow2_def deliver_def maxDouble_def)
  have o: "toFloat32 binary32 (fdiv binary64 (Fin 10000) (Fin 100000)) = Fin (13421773 / 134217728)"
    by (simp add: tenth tenth32 deliver_def maxDouble_def maxFloat32_def)
  have p: "fallbackPredictD binary64 binary32 (Fin (1 / 2)) = Fin (13421773 / 134217728)"
    by (simp only: fallbackPredictD_def Let_def x c o)
  have d: "denormalizeCostD binary64 (Fin (13421773 / 134217728)) (Fin 5000) (Fin 100000) =
      Fin (243269634375 / 16777216)"
    by (simp add: int scaled denormalizeCostD_def fsub_def deliver_def maxDouble_def)
  have "predictManufacturingCostD binary64 binary32 (Fin 5050) = Fin (243269634375 / 16777216)"
    by (simp only: predictManufacturingCostD_def Let_def n t p d)
  then show ?thesis
    by (simp add: specReferenceCost_closed)
qed

text \<open>
  C10 (as amended). On finite doubles of magnitude at most \<open>10^300\<close> no operation of
  \<open>predictDemand\<close> overflows, and it returns a non-negative integer: the prediction rounded
  to the nearest integer, and 0 when that is negative.
\<close>

theorem predictDemand_nonneg:
  assumes "bounded_by (10 ^ 300) (price f)" and "bounded_by (10 ^ 300) (availability f)"
    and "bounded_by (10 ^ 300) (stockLevels f)" and "bounded_by (10 ^ 300) (leadTimes f)"
    and "bounded_by (10 ^ 300) (orderQuantities f)"
  shows "\<exists>y n. demandPrediction binary64 f = Fin y \<and> n = max 0 (round y) \<and>
           predictDemand binary64 f = Fin (of_int n) \<and> 0 \<le> n"
  using binary64_rounds assms by (rule predictDemand_any_rounding)

theorem predictDemand_nonneg_witness:
  "bounded_by (10 ^ 300) (Fin 50) \<and> bounded_by (10 ^ 300) (Fin 75) \<and>
   bounded_by (10 ^ 300) (Fin 60) \<and> bounded_by (10 ^ 300) (Fin 7) \<and>
   bounded_by (10 ^ 300) (Fin 30) \<and>
   (\<exists>y n. demandPrediction binary64
      \<lparr>price = Fin 50, availability = Fin 75, stockLevels = Fin 60, leadTimes = Fin 7,
       orderQuantities = Fin 30\<rparr> = Fin y \<and> n = max 0 (round y) \<and>
     predictDemand binary64
      \<lparr>price = Fin 50, availability = Fin 75, stockLevels = Fin 60, leadTimes = Fin 7,
       orderQuantities = Fin 30\<rparr> = Fin (of_int n) \<and> 0 \<le> n)"
proof -
  have b: "bounded_by (10 ^ 300) (Fin 50)" "bounded_by (10 ^ 300) (Fin 75)"
    "bounded_by (10 ^ 300) (Fin 60)" "bounded_by (10 ^ 300) (Fin 7)"
    "bounded_by (10 ^ 300) (Fin 30)"
    by (simp_all add: bounded_by_def)
  from predictDemand_nonneg [of "\<lparr>price = Fin 50, availability = Fin 75,
      stockLevels = Fin 60, leadTimes = Fin 7, orderQuantities = Fin 30\<rparr>"] b
  show ?thesis by simp
qed

text \<open>
  With the price \<open>-1e308\<close> and the other features at their centres, the weighted sum is
  about \<open>3.5e307\<close>, its product with 120 overflows, and the result is \<open>Infinity\<close>.
\<close>

theorem predictDemand_overflows:
  "predictDemand binary64
     \<lparr>price = lit binary64 (- (10 ^ 308)), availability = Fin 75, stockLevels = Fin 60,
      leadTimes = Fin 7, orderQuantities = Fin 30\<rparr> = PInf"
proof -
  have zero: "binary64 0 = 0"
    using binary64_exact [of 0 0] by simp
  have "binary64 (- (10 ^ 308)) = - (5010420900022432 * 2 ^ 971)"
    by (rule binary64_eqI [where e = 971 and m = "- 5010420900022432"])
      (simp_all add: roundEven_def Let_def)
  then have p: "lit binary64 (- (10 ^ 308)) = Fin (- (5010420900022432 * 2 ^ 971))"
    by (simp only: lit_def)
  have s: "fsub binary64 (Fin (- (5010420900022432 * 2 ^ 971))) (Fin 50) =
      Fin (- (5010420900022432 * 2 ^ 971))"
    by (simp add: fsub_def)
      (rule deliver_binary64(1) [where e = 971 and m = "- 5010420900022432"],
        simp_all add: roundEven_def Let_def maxDouble_def)
  have d: "fdiv binary64 (Fin (- (5010420900022432 * 2 ^ 971))) (Fin 10) =
      Fin (- (8016673440035891 * 2 ^ 967))"
    by simp
      (rule deliver_binary64(1) [where e = 967 and m = "- 8016673440035891"],
        simp_all add: roundEven_def Let_def maxDouble_def)
  have m: "fmul binary64 (Fin (- (8016673440035891 * 2 ^ 967))) (Fin (- 3.5)) =
      Fin (7014589260031405 * 2 ^ 969)"
    by simp
      (rule deliver_binary64(1) [where e = 969 and m = 7014589260031405],
        simp_all add: roundEven_def Let_def maxDouble_def)
  have z: "fmul binary64 (fdiv binary64 (fsub binary64 (Fin 75) (Fin 75)) (Fin 25)) (lit binary64 u) = Fin 0"
    "fmul binary64 (fdiv binary64 (fsub binary64 (Fin 60) (Fin 60)) (Fin 40)) (lit binary64 u) = Fin 0"
    "fmul binary64 (fdiv binary64 (fsub binary64 (Fin 7) (Fin 7)) (Fin 5)) (Fin u) = Fin 0"
    "fmul binary64 (fdiv binary64 (fsub binary64 (Fin 30) (Fin 30)) (Fin 20)) (lit binary64 u) = Fin 0"
    for u
    by (simp_all add: zero lit_def fsub_def deliver_def maxDouble_def)
  have a: "fadd binary64 (Fin 0) (Fin (7014589260031405 * 2 ^ 969)) =
      Fin (7014589260031405 * 2 ^ 969)"
    by simp
      (rule deliver_binary64(1) [where e = 969 and m = 7014589260031405],
        simp_all add: roundEven_def Let_def maxDouble_def)
  have a': "fadd binary64 (Fin (7014589260031405 * 2 ^ 969)) (Fin 0) =
      Fin (7014589260031405 * 2 ^ 969)"
    by simp
      (rule deliver_binary64(1) [where e = 969 and m = 7014589260031405],
        simp_all add: roundEven_def Let_def maxDouble_def)
  have over: "fmul binary64 (Fin (7014589260031405 * 2 ^ 969)) (Fin 120) = PInf"
    by simp
      (rule deliver_binary64(2) [where e = 971 and m = 210437677800942150
            and y = "210437677800942150 * 2 ^ 971"],
        simp_all add: roundEven_def Let_def maxDouble_def)
  have less: "\<not> fless (Fin 100) (Fin (- (5010420900022432 * 2 ^ 971)))"
    "\<not> fless (Fin 75) (Fin 30)" "\<not> fless (Fin 14) (Fin 7)"
    by simp_all
  have inf: "fadd binary64 (Fin 850) PInf = PInf"
    by simp
  show ?thesis
    by (simp only: predictDemand_def Let_def features.simps p s d m z a a' over inf less
        if_False mathRoundD.simps mathMax0.simps)
qed

text \<open>
  The rounding of the operations decides the result where the exact prediction is
  halfway between two integers: with the price 0.25 and the other features at their
  centres the exact prediction would be 2939.5, the code computes 2939.4999999999995 and
  returns 2939.
\<close>

lemma predictDemand_quarter:
  "predictDemand binary64
     \<lparr>price = Fin (1 / 4), availability = Fin 75, stockLevels = Fin 60,
      leadTimes = Fin 7, orderQuantities = Fin 30\<rparr> = Fin 2939"
proof -
  have zero: "binary64 0 = 0"
    using binary64_exact [of 0 0] by simp
  have s: "fsub binary64 (Fin (1 / 4)) (Fin 50) = Fin (- (199 / 4))"
    by (simp add: fsub_def)
      (rule deliver_binary64(1) [where e = "- 47" and m = "- 7001690045677568"],
        simp_all add: roundEven_def Let_def maxDouble_def)
  have d: "fdiv binary64 (Fin (- (199 / 4))) (Fin 10) = Fin (- (5601352036542054 / 2 ^ 50))"
    by simp
      (rule deliver_binary64(1) [where e = "- 50" and m = "- 5601352036542054"],
        simp_all add: roundEven_def Let_def maxDouble_def)
  have m: "fmul binary64 (Fin (- (5601352036542054 / 2 ^ 50))) (Fin (- 3.5)) =
      Fin (4901183031974297 / 2 ^ 48)"
    by simp
      (rule deliver_binary64(1) [where e = "- 48" and m = 4901183031974297],
        simp_all add: roundEven_def Let_def maxDouble_def)
  have z: "fmul binary64 (fdiv binary64 (fsub binary64 (Fin 75) (Fin 75)) (Fin 25)) (lit binary64 u) = Fin 0"
    "fmul binary64 (fdiv binary64 (fsub binary64 (Fin 60) (Fin 60)) (Fin 40)) (lit binary64 u) = Fin 0"
    "fmul binary64 (fdiv binary64 (fsub binary64 (Fin 7) (Fin 7)) (Fin 5)) (Fin u) = Fin 0"
    "fmul binary64 (fdiv binary64 (fsub binary64 (Fin 30) (Fin 30)) (Fin 20)) (lit binary64 u) = Fin 0"
    for u
    by (simp_all add: zero lit_def fsub_def deliver_def maxDouble_def)
  have a: "fadd binary64 (Fin 0) (Fin (4901183031974297 / 2 ^ 48)) =
      Fin (4901183031974297 / 2 ^ 48)"
    by simp
      (rule deliver_binary64(1) [where e = "- 48" and m = 4901183031974297],
        simp_all add: roundEven_def Let_def maxDouble_def)
  have a': "fadd binary64 (Fin (4901183031974297 / 2 ^ 48)) (Fin 0) =
      Fin (4901183031974297 / 2 ^ 48)"
    by simp
      (rule deliver_binary64(1) [where e = "- 48" and m = 4901183031974297],
        simp_all add: roundEven_def Let_def maxDouble_def)
  have t: "fmul binary64 (Fin (4901183031974297 / 2 ^ 48)) (Fin 120) =
      Fin (4594859092475903 / 2 ^ 41)"
    by simp
      (rule deliver_binary64(1) [where e = "- 41" and m = 4594859092475903],
        simp_all add: roundEven_def Let_def maxDouble_def)
  have b: "fadd binary64 (Fin 850) (Fin (4594859092475903 / 2 ^ 41)) =
      Fin (6464028859695103 / 2 ^ 41)"
    by simp
      (rule deliver_binary64(1) [where e = "- 41" and m = 6464028859695103],
        simp_all add: roundEven_def Let_def maxDouble_def)
  have less: "\<not> fless (Fin 100) (Fin (1 / 4))"
    "\<not> fless (Fin 75) (Fin 30)" "\<not> fless (Fin 14) (Fin 7)"
    by simp_all
  have r: "mathMax0 (mathRoundD (Fin (6464028859695103 / 2 ^ 41))) = Fin 2939"
    by (simp add: round_def)
  show ?thesis
    by (simp only: predictDemand_def Let_def features.simps s d m z a a' t b less if_False r)
qed

end
